theory Spec2Isabelle
  imports Complex_Main "HOL-Library.Char_ord" "HOL-Library.List_Lexorder" "HOL-Library.Sublist"
begin

section \<open>Characters and character classes\<close>

text \<open>
  The program works on \<open>std::string\<close>, a sequence of bytes; \<open>string\<close> (a list of 8-bit
  \<open>char\<close>) is the same data. The classes \<open>\w\<close>, \<open>\s\<close> and \<open>\d\<close> of \<open>std::regex\<close> are
  those of the classic "C" locale, which is the locale of a program that never calls
  \<open>setlocale\<close> or \<open>std::locale::global\<close>.
\<close>

definition char_code :: "char \<Rightarrow> nat" where
  "char_code c = of_char c"

definition is_digit :: "char \<Rightarrow> bool" where
  "is_digit c = (48 \<le> char_code c \<and> char_code c \<le> 57)"

definition is_word :: "char \<Rightarrow> bool" where
  "is_word c = (is_digit c \<or> (65 \<le> char_code c \<and> char_code c \<le> 90)
                \<or> (97 \<le> char_code c \<and> char_code c \<le> 122) \<or> c = CHR ''_'')"

definition is_space :: "char \<Rightarrow> bool" where
  "is_space c = (char_code c = 32 \<or> (9 \<le> char_code c \<and> char_code c \<le> 13))"

section \<open>The regular expressions of the program\<close>

text \<open>
  Every regular expression that \<open>exe2.cpp\<close> builds is a sequence of single-character
  atoms, each with one of the quantifiers none, \<open>?\<close>, \<open>*\<close>, \<open>+\<close>, and of word-boundary
  assertions \<open>\b\<close>. An \<open>item list\<close> is such a sequence. \<open>AnyChar\<close> is the ECMAScript dot: any
  character but a line feed or a carriage return.
\<close>

datatype atom = Chr char | AnyChar | WordC | SpaceC | DigitC | OneOf "atom list"

fun atom_matches :: "atom \<Rightarrow> char \<Rightarrow> bool" where
  "atom_matches (Chr d) c = (c = d)"
| "atom_matches AnyChar c = (c \<noteq> CHR 0x0A \<and> c \<noteq> CHR 0x0D)"
| "atom_matches WordC c = is_word c"
| "atom_matches SpaceC c = is_space c"
| "atom_matches DigitC c = is_digit c"
| "atom_matches (OneOf as) c = (\<exists>a \<in> set as. atom_matches a c)"

datatype item = One atom | Opt atom | Star atom | Plus atom | WordB

fun word_opt :: "char option \<Rightarrow> bool" where
  "word_opt None = False"
| "word_opt (Some c) = is_word c"

fun next_char :: "string \<Rightarrow> char option" where
  "next_char [] = None"
| "next_char (c # cs) = Some c"

fun chunk :: "string \<Rightarrow> (string list \<times> string) option \<Rightarrow> (string list \<times> string) option" where
  "chunk c None = None"
| "chunk c (Some (cs, r)) = Some (c # cs, r)"

fun grow :: "char \<Rightarrow> (string list \<times> string) option \<Rightarrow> (string list \<times> string) option" where
  "grow x None = None"
| "grow x (Some ([], r)) = Some ([[x]], r)"
| "grow x (Some (c # cs, r)) = Some ((x # c) # cs, r)"

text \<open>
  \<open>matchI is nn prev s\<close> is the backtracking matcher of ECMAScript anchored at the start
  of \<open>s\<close>: quantifiers are greedy, and an alternative is abandoned only when the rest of
  the pattern fails. \<open>prev\<close> is the character before \<open>s\<close> (\<open>None\<close> at the start of the
  subject), which \<open>\b\<close> looks at; \<open>nn\<close> is the flag \<open>match_not_null\<close>. The result is the
  text each item consumed, one chunk per item, and the text left over.
\<close>

fun matchI :: "item list \<Rightarrow> bool \<Rightarrow> char option \<Rightarrow> string \<Rightarrow> (string list \<times> string) option" where
  "matchI [] nn prev s = (if nn then None else Some ([], s))"
| "matchI (WordB # is) nn prev s =
     (if word_opt prev \<noteq> word_opt (next_char s) then chunk [] (matchI is nn prev s) else None)"
| "matchI (One a # is) nn prev [] = None"
| "matchI (One a # is) nn prev (x # xs) =
     (if atom_matches a x then chunk [x] (matchI is False (Some x) xs) else None)"
| "matchI (Opt a # is) nn prev [] = chunk [] (matchI is nn prev [])"
| "matchI (Opt a # is) nn prev (x # xs) =
     (if atom_matches a x
      then (case matchI is False (Some x) xs of
              Some (cs, r) \<Rightarrow> Some ([x] # cs, r)
            | None \<Rightarrow> chunk [] (matchI is nn prev (x # xs)))
      else chunk [] (matchI is nn prev (x # xs)))"
| "matchI (Star a # is) nn prev [] = chunk [] (matchI is nn prev [])"
| "matchI (Star a # is) nn prev (x # xs) =
     (if atom_matches a x
      then (case matchI (Star a # is) False (Some x) xs of
              Some m \<Rightarrow> grow x (Some m)
            | None \<Rightarrow> chunk [] (matchI is nn prev (x # xs)))
      else chunk [] (matchI is nn prev (x # xs)))"
| "matchI (Plus a # is) nn prev [] = None"
| "matchI (Plus a # is) nn prev (x # xs) =
     (if atom_matches a x then grow x (matchI (Star a # is) False (Some x) xs) else None)"

lemma chunk_Some: "chunk c m = Some (cs, r) \<longleftrightarrow> (\<exists>cs'. cs = c # cs' \<and> m = Some (cs', r))"
  by (cases m) auto

lemma grow_Some:
  "grow x m = Some (cs, r) \<Longrightarrow> \<exists>cs'. m = Some (cs', r) \<and> concat cs = x # concat cs'"
  by (cases "(x, m)" rule: grow.cases) auto

lemma matchI_consumes:
  "matchI is nn prev s = Some (cs, r) \<Longrightarrow> s = concat cs @ r \<and> (nn \<longrightarrow> concat cs \<noteq> [])"
proof (induction "is" nn prev s arbitrary: cs r rule: matchI.induct)
  case (1 nn prev s)
  then show ?case by (simp split: if_splits)
next
  case (2 "is" nn prev s)
  then show ?case by (auto simp: chunk_Some split: if_splits)
next
  case (3 a "is" nn prev)
  then show ?case by simp
next
  case (4 a "is" nn prev x xs)
  then show ?case by (auto simp: chunk_Some split: if_splits)
next
  case (5 a "is" nn prev)
  then show ?case by (auto simp: chunk_Some)
next
  case (6 a "is" nn prev x xs)
  then show ?case by (auto simp: chunk_Some split: if_splits option.splits)
next
  case (7 a "is" nn prev)
  then show ?case by (auto simp: chunk_Some)
next
  case (8 a "is" nn prev x xs)
  show ?case
  proof (cases "atom_matches a x")
    case True
    show ?thesis
    proof (cases "matchI (Star a # is) False (Some x) xs")
      case None
      with True 8(4) obtain cs' where cs: "cs = [] # cs'" and m: "matchI is nn prev (x # xs) = Some (cs', r)"
        by (auto simp: chunk_Some)
      from 8(2) [OF True None m] cs show ?thesis by simp
    next
      case (Some m)
      obtain cs' r' where m: "m = (cs', r')" by (cases m)
      with True Some 8(4) have e: "grow x (Some (cs', r')) = Some (cs, r)" by simp
      from grow_Some [OF e] have r: "r' = r" and c: "concat cs = x # concat cs'" by auto
      from 8(1) [OF True] Some m have "xs = concat cs' @ r'" by simp
      with r c show ?thesis by simp
    qed
  next
    case False
    with 8(4) obtain cs' where cs: "cs = [] # cs'" and m: "matchI is nn prev (x # xs) = Some (cs', r)"
      by (auto simp: chunk_Some)
    from 8(3) [OF False m] cs show ?thesis by simp
  qed
next
  case (9 a "is" nn prev)
  then show ?case by simp
next
  case (10 a "is" nn prev x xs)
  from 10(2) have ax: "atom_matches a x" and e: "grow x (matchI (Star a # is) False (Some x) xs) = Some (cs, r)"
    by (auto split: if_splits)
  from grow_Some [OF e] obtain cs' where m: "matchI (Star a # is) False (Some x) xs = Some (cs', r)"
    and c: "concat cs = x # concat cs'" by auto
  from 10(1) [OF ax m] c show ?case by simp
qed

lemma matchI_length:
  assumes "matchI is nn prev s = Some (cs, r)"
  shows "length s = length (concat cs) + length r" and "nn \<Longrightarrow> length r < length s"
proof -
  from matchI_consumes [OF assms] have s: "s = concat cs @ r" and n: "nn \<longrightarrow> concat cs \<noteq> []"
    by simp_all
  from s have "length s = length (concat cs @ r)" by simp
  then show l: "length s = length (concat cs) + length r" by simp
  assume nn
  with n have "0 < length (concat cs)" by blast
  with l show "length r < length s" by linarith
qed

text \<open>
  \<open>regex_search\<close> tries the start positions from left to right and returns the text
  skipped, the chunks of the first match and the text after it.
\<close>

fun skipped :: "char \<Rightarrow> (string \<times> string list \<times> string) option \<Rightarrow> (string \<times> string list \<times> string) option" where
  "skipped x None = None"
| "skipped x (Some (pre, cs, r)) = Some (x # pre, cs, r)"

fun regex_search :: "item list \<Rightarrow> char option \<Rightarrow> string \<Rightarrow> (string \<times> string list \<times> string) option" where
  "regex_search is prev [] =
     (case matchI is False prev [] of Some (cs, r) \<Rightarrow> Some ([], cs, r) | None \<Rightarrow> None)"
| "regex_search is prev (x # xs) =
     (case matchI is False prev (x # xs) of
        Some (cs, r) \<Rightarrow> Some ([], cs, r)
      | None \<Rightarrow> skipped x (regex_search is (Some x) xs))"

lemma skipped_Some:
  "skipped x m = Some (pre, cs, r) \<longleftrightarrow> (\<exists>pre'. pre = x # pre' \<and> m = Some (pre', cs, r))"
  by (cases "(x, m)" rule: skipped.cases) auto

lemma regex_search_consumes:
  "regex_search is prev s = Some (pre, cs, r) \<Longrightarrow> s = pre @ concat cs @ r"
  by (induction "is" prev s arbitrary: pre rule: regex_search.induct)
     (auto simp: skipped_Some split: option.splits dest: matchI_consumes)

lemma regex_search_length:
  assumes "regex_search is prev s = Some (pre, cs, r)"
  shows "length s = length pre + length (concat cs) + length r"
proof -
  have "length s = length (pre @ concat cs @ r)"
    using regex_search_consumes [OF assms] by simp
  then show ?thesis by simp
qed

fun last_char :: "char option \<Rightarrow> string \<Rightarrow> char option" where
  "last_char prev [] = prev"
| "last_char prev (x # xs) = last_char (Some x) xs"

text \<open>
  \<open>all_matches\<close> is the iteration of \<open>std::regex_iterator\<close>, which \<open>std::regex_replace\<close>
  also runs: the next search starts where the last match ended, with the character
  before that position available to \<open>\b\<close>. After an empty match the iterator first tries
  a non-empty match at the same position and otherwise moves one character on. The
  result is the list of matches, each with the text between it and the match before,
  and the text after the last match.
\<close>

function all_matches :: "item list \<Rightarrow> bool \<Rightarrow> char option \<Rightarrow> string \<Rightarrow> (string \<times> string list) list \<times> string" where
  "all_matches is after_empty prev s =
     (if after_empty then
        (case s of
           [] \<Rightarrow> ([], [])
         | x # xs \<Rightarrow>
             (case matchI is True prev s of
                Some (cs, r) \<Rightarrow>
                  (let (ms, suf) = all_matches is False (last_char prev (concat cs)) r
                   in (([], cs) # ms, suf))
              | None \<Rightarrow>
                  (case all_matches is False (Some x) xs of
                     ([], suf) \<Rightarrow> ([], x # suf)
                   | ((pre, cs) # ms, suf) \<Rightarrow> ((x # pre, cs) # ms, suf))))
      else
        (case regex_search is prev s of
           None \<Rightarrow> ([], s)
         | Some (pre, cs, r) \<Rightarrow>
             (let (ms, suf) = all_matches is (concat cs = []) (last_char prev (pre @ concat cs)) r
              in ((pre, cs) # ms, suf))))"
  by pat_completeness auto
termination
proof (relation "measure (\<lambda>(is, ae, prev, s). 2 * length s + (if ae then 0 else 1))", goal_cases)
  case 1
  show ?case by simp
next
  case (2 "is" ae prev s x xs)
  then show ?case by simp
next
  case (3 "is" ae prev s x xs m cs r)
  from 3(3,4) have "matchI is True prev s = Some (cs, r)" by simp
  from matchI_length(2) [OF this] have "length r < length s" by simp
  with 3(1) show ?case by simp
next
  case (4 "is" ae prev s m pre cr cs r)
  from 4(2,3,4) have srch: "regex_search is prev s = Some (pre, cs, r)" by simp
  have le: "length r \<le> length s"
    using regex_search_length [OF srch] by linarith
  show ?case
  proof (cases "concat cs = []")
    case True
    with le 4(1) show ?thesis by simp
  next
    case False
    then have "0 < length (concat cs)" by simp
    with regex_search_length [OF srch] have "length r < length s" by linarith
    with 4(1) show ?thesis by simp
  qed
qed

declare all_matches.simps [simp del]


text \<open>
  What a match is, stated without the matcher: \<open>conforms is prev cs rest\<close> holds when the
  chunks \<open>cs\<close> are, item by item, texts the items of \<open>is\<close> accept, with \<open>prev\<close> the
  character before the first chunk and \<open>rest\<close> the text after the last one.
\<close>

fun item_ok :: "item \<Rightarrow> char option \<Rightarrow> string \<Rightarrow> string \<Rightarrow> bool" where
  "item_ok (One a) prev c rest = (length c = 1 \<and> list_all (atom_matches a) c)"
| "item_ok (Opt a) prev c rest = (length c \<le> 1 \<and> list_all (atom_matches a) c)"
| "item_ok (Star a) prev c rest = list_all (atom_matches a) c"
| "item_ok (Plus a) prev c rest = (c \<noteq> [] \<and> list_all (atom_matches a) c)"
| "item_ok WordB prev c rest = (c = [] \<and> word_opt prev \<noteq> word_opt (next_char rest))"

fun conforms :: "item list \<Rightarrow> char option \<Rightarrow> string list \<Rightarrow> string \<Rightarrow> bool" where
  "conforms [] prev [] rest = True"
| "conforms (i # is) prev (c # cs) rest =
     (item_ok i prev c (concat cs @ rest) \<and> conforms is (last_char prev c) cs rest)"
| "conforms is prev cs rest = False"

text \<open>
  \<open>std::regex_replace\<close> with the default flags copies the text between the matches and
  puts the format string in place of every match. Neither format string of the program
  contains a \<open>$\<close>, the only character the format syntax treats specially.
\<close>

definition regex_replace :: "item list \<Rightarrow> string \<Rightarrow> string \<Rightarrow> string" where
  "regex_replace is fmt s =
     (let (ms, suf) = all_matches is False None s
      in concat (map (\<lambda>(pre, cs). pre @ fmt) ms) @ suf)"

text \<open>\<open>sub_match\<close> number \<open>i\<close>: the text of item \<open>i\<close>, empty when there is none.\<close>

definition capture :: "nat \<Rightarrow> string list \<Rightarrow> string" where
  "capture i cs = (if i < length cs then cs ! i else [])"

section \<open>Proposition Extractor\<close>

text \<open>The pattern \<^verbatim>\<open>(\w+\s*[<>]=?\s*[\d\.]+)\<close> of \<open>extractAtomicPropositions\<close>.\<close>

definition propPattern :: "item list" where
  "propPattern =
     [Plus WordC, Star SpaceC, One (OneOf [Chr CHR ''<'', Chr CHR ''>'']), Opt (Chr CHR ''=''),
      Star SpaceC, Plus (OneOf [DigitC, Chr CHR ''.''])]"

definition extractAtomicPropositions :: "string \<Rightarrow> string list" where
  "extractAtomicPropositions stlFormula =
     map (\<lambda>(pre, cs). concat cs) (fst (all_matches propPattern False None stlFormula))"

text \<open>
  The shape \<open>identifier relop number\<close> in the words of the specification,
  \<^verbatim>\<open>\w+\s*(<|>|<=|>=)\s*[\d.]+\<close>.
\<close>

definition prop_shape :: "string \<Rightarrow> bool" where
  "prop_shape u \<longleftrightarrow>
     (\<exists>w s1 ro s2 n. u = w @ s1 @ ro @ s2 @ n
        \<and> w \<noteq> [] \<and> list_all is_word w \<and> list_all is_space s1
        \<and> ro \<in> {''<'', ''>'', ''<='', ''>=''}
        \<and> list_all is_space s2 \<and> n \<noteq> [] \<and> list_all (\<lambda>c. is_digit c \<or> c = CHR ''.'') n)"

text \<open>The characters of a number, \<^verbatim>\<open>[\d.]\<close>.\<close>

definition digdot :: "char \<Rightarrow> bool" where
  "digdot c = (is_digit c \<or> c = CHR ''.'')"

text \<open>
  \<open>leftmost_longest_matches ms s\<close>: the texts \<open>ms\<close> are the successive matches of the shape
  in \<open>s\<close>, from left to right and without overlap. Each one starts at the first position,
  after the match before it, where an occurrence of the shape starts, and is the longest
  occurrence that starts there; no occurrence is left in the text after the last.
\<close>

primrec leftmost_longest_matches :: "string list \<Rightarrow> string \<Rightarrow> bool" where
  "leftmost_longest_matches [] s = (\<forall>u. sublist u s \<longrightarrow> \<not> prop_shape u)"
| "leftmost_longest_matches (m # ms) s =
     (\<exists>pre post. s = pre @ m @ post \<and> prop_shape m
        \<and> (\<forall>k u. k < length pre \<and> prefix u (drop k s) \<longrightarrow> \<not> prop_shape u)
        \<and> (\<forall>u. prefix u (m @ post) \<and> prop_shape u \<longrightarrow> length u \<le> length m)
        \<and> leftmost_longest_matches ms post)"

section \<open>Proposition map and Renamer\<close>

text \<open>
  \<open>std::to_string\<close> of an integer: its decimal digits, with a minus sign when negative.
\<close>

definition digit_char :: "int \<Rightarrow> char" where
  "digit_char d = char_of (48 + d)"

function dec :: "int \<Rightarrow> string" where
  "dec n = (if n < 10 then [digit_char n] else dec (n div 10) @ [digit_char (n mod 10)])"
  by pat_completeness auto
termination
  by (relation "measure nat") auto

declare dec.simps [simp del]

definition to_string :: "int \<Rightarrow> string" where
  "to_string n = (if n < 0 then CHR ''-'' # dec (- n) else dec n)"

text \<open>
  \<open>std::map<std::string, std::string>\<close> is a list of entries kept in ascending order of
  the key, without duplicate keys; \<open>std::string\<close> compares bytes lexicographically.
  \<open>map_assign k v m\<close> is \<open>m[k] = v\<close>.
\<close>

type_synonym prop_map = "(string \<times> string) list"

fun map_assign :: "string \<Rightarrow> string \<Rightarrow> prop_map \<Rightarrow> prop_map" where
  "map_assign k v [] = [(k, v)]"
| "map_assign k v ((k', v') # m) =
     (if k < k' then (k, v) # (k', v') # m
      else if k = k' then (k, v) # m
      else (k', v') # map_assign k v m)"

text \<open>The loop of \<open>main\<close> that fills \<open>propMap\<close>, from index \<open>i\<close> on.\<close>

fun assign_names :: "nat \<Rightarrow> string list \<Rightarrow> prop_map \<Rightarrow> prop_map" where
  "assign_names i [] propMap = propMap"
| "assign_names i (p # ps) propMap =
     assign_names (i + 1) ps (map_assign p (''p'' @ to_string (int (i + 1))) propMap)"

definition build_propMap :: "string list \<Rightarrow> prop_map" where
  "build_propMap atomicProps = assign_names 0 atomicProps []"

text \<open>
  \<open>replaceAtomicProps\<close> compiles \<^verbatim>\<open>"\\b" + pair.first + "\\b"\<close>. The keys are texts that
  \<open>propPattern\<close> matched: word characters, white space, \<open><\<close>, \<open>>\<close>, \<open>=\<close>, digits and dots.
  Of these only the dot is special in the ECMAScript grammar; every other character
  stands for itself. \<open>key_regex\<close> is the compiled pattern of such a key.
\<close>

definition key_item :: "char \<Rightarrow> item" where
  "key_item c = (if c = CHR ''.'' then One AnyChar else One (Chr c))"

definition key_regex :: "string \<Rightarrow> item list" where
  "key_regex key = WordB # map key_item key @ [WordB]"

text \<open>
  \<open>dot_variant k c\<close>: the character \<open>c\<close> of a text is accepted where the key has \<open>k\<close>.
\<close>

definition dot_variant :: "char \<Rightarrow> char \<Rightarrow> bool" where
  "dot_variant k c = (if k = CHR ''.'' then c \<noteq> CHR 0x0A \<and> c \<noteq> CHR 0x0D else c = k)"

fun replaceAtomicProps :: "string \<Rightarrow> prop_map \<Rightarrow> string" where
  "replaceAtomicProps mitlFormula [] = mitlFormula"
| "replaceAtomicProps mitlFormula ((key, name) # propMap) =
     replaceAtomicProps (regex_replace (key_regex key) name mitlFormula) propMap"

section \<open>File Writer\<close>

text \<open>\<open>std::string::find\<close>: the first position where the pattern occurs, \<open>None\<close> for \<open>npos\<close>.\<close>

fun str_find :: "string \<Rightarrow> string \<Rightarrow> nat option" where
  "str_find pat [] = (if pat = [] then Some 0 else None)"
| "str_find pat (x # xs) =
     (if prefix pat (x # xs) then Some 0 else map_option Suc (str_find pat xs))"

definition mitl_filename :: "string \<Rightarrow> string" where
  "mitl_filename filename =
     (if str_find ''.mitl'' filename = None then filename @ ''.mitl'' else filename)"

record write_result =
  file_written :: "(string \<times> string) option"
  cout_text :: string
  cerr_text :: string

text \<open>
  \<open>can_open\<close> tells whether \<open>std::ofstream\<close> can open a path for writing; it stands for
  the file system.
\<close>

definition writeMITLToFile :: "(string \<Rightarrow> bool) \<Rightarrow> string \<Rightarrow> string \<Rightarrow> write_result" where
  "writeMITLToFile can_open mitlFormula filename =
     (let fname = mitl_filename filename in
      if can_open fname
      then \<lparr>file_written = Some (fname, mitlFormula),
            cout_text = ''MITL formula written to '' @ fname @ [CHR 0x0A], cerr_text = []\<rparr>
      else \<lparr>file_written = None, cout_text = [],
            cerr_text = ''Error: Unable to write to file '' @ fname @ [CHR 0x0A]\<rparr>)"


section \<open>Double-precision numbers\<close>

text \<open>
  The program computes with \<open>double\<close>: the time of the signal is a running sum of \<open>0.1\<close>,
  and \<open>std::stod\<close> reads the bounds of an interval. Every value it can reach is a finite,
  non-negative IEEE 754 binary64 number, that is \<open>mant * 2 ^ expo\<close> with a mantissa
  \<open>0 \<le> mant\<close> of at most 53 bits. Arithmetic rounds to nearest, ties to even, which is the default rounding
  mode and the one \<open>strtod\<close> uses.
\<close>

datatype binary64 = B64 (mant: int) (expo: int)

function bitlen :: "int \<Rightarrow> int" where
  "bitlen n = (if n \<le> 0 then 0 else 1 + bitlen (n div 2))"
  by pat_completeness auto
termination
  by (relation "measure nat") auto

declare bitlen.simps [simp del]

definition round_half_even :: "int \<Rightarrow> int \<Rightarrow> int" where
  "round_half_even n d =
     (let q = n div d; r = n mod d
      in if 2 * r < d then q else if d < 2 * r then q + 1 else if even q then q else q + 1)"

text \<open>
  \<open>to_binary64 n d e\<close> is the binary64 number nearest to \<open>(n / d) * 2 ^ e\<close>, for \<open>n \<ge> 0\<close>
  and \<open>d > 0\<close>,
  before the exponent range is taken into account. With \<open>k0\<close> as below, \<open>n / (d * 2 ^ k0)\<close>
  lies between \<open>2 ^ 52\<close> and \<open>2 ^ 54\<close>, so that \<open>k0\<close> or \<open>k0 + 1\<close> leaves 53 bits before the
  binary point.
\<close>

definition to_binary64 :: "int \<Rightarrow> int \<Rightarrow> int \<Rightarrow> binary64" where
  "to_binary64 n d e =
     (if n \<le> 0 then B64 0 0
      else
        let k0 = bitlen n - bitlen d - 53;
            k = (if 2 ^ 53 * (d * 2 ^ nat k0) \<le> n * 2 ^ nat (- k0) then k0 + 1 else k0);
            m = round_half_even (n * 2 ^ nat (- k)) (d * 2 ^ nat k)
        in if m = 2 ^ 53 then B64 (2 ^ 52) (e + k + 1) else B64 m (e + k))"

definition double_of_int :: "int \<Rightarrow> binary64" where
  "double_of_int n = to_binary64 n 1 0"

definition dbl_add :: "binary64 \<Rightarrow> binary64 \<Rightarrow> binary64" where
  "dbl_add a b =
     (let e = min (expo a) (expo b)
      in to_binary64 (mant a * 2 ^ nat (expo a - e) + mant b * 2 ^ nat (expo b - e)) 1 e)"

definition dbl_less :: "binary64 \<Rightarrow> binary64 \<Rightarrow> bool" where
  "dbl_less a b =
     (let e = min (expo a) (expo b)
      in mant a * 2 ^ nat (expo a - e) < mant b * 2 ^ nat (expo b - e))"

definition dbl_le :: "binary64 \<Rightarrow> binary64 \<Rightarrow> bool" where
  "dbl_le a b = (\<not> dbl_less b a)"

text \<open>
  \<open>std::round\<close> rounds halves away from zero, and the conversion to \<open>int\<close> drops the
  fraction; both are given here with their integer result. The conversion of a value
  that \<open>int\<close> cannot hold is undefined behaviour.
\<close>

definition dbl_round :: "binary64 \<Rightarrow> int" where
  "dbl_round a =
     (if 0 \<le> expo a then mant a * 2 ^ nat (expo a)
      else (mant a + 2 ^ (nat (- expo a) - 1)) div 2 ^ nat (- expo a))"

definition dbl_trunc :: "binary64 \<Rightarrow> int" where
  "dbl_trunc a =
     (if 0 \<le> expo a then mant a * 2 ^ nat (expo a)
      else mant a div 2 ^ nat (- expo a))"


datatype error = Invalid_argument | Out_of_range | Undefined_behaviour

definition INT_MAX :: int where
  "INT_MAX = 2147483647"

definition static_cast_int :: "int \<Rightarrow> error + int" where
  "static_cast_int v = (if v \<le> INT_MAX then Inr v else Inl Undefined_behaviour)"

text \<open>
  \<open>std::stod\<close> on a text of digits and dots, which is what the groups \<^verbatim>\<open>([\d\.]+)\<close> hand
  to it: \<open>strtod\<close> reads the digits, one dot and the digits after it, and stops there. No
  digit at all is \<open>std::invalid_argument\<close>. A value that rounds to \<open>2 ^ 1024\<close> or more, or
  one below \<open>2 ^ - 1022\<close> that binary64 cannot hold exactly, sets \<open>ERANGE\<close>, which \<open>std::stod\<close>
  turns into \<open>std::out_of_range\<close>.
\<close>

fun digits_value :: "int \<Rightarrow> string \<Rightarrow> int" where
  "digits_value acc [] = acc"
| "digits_value acc (c # cs) = digits_value (10 * acc + (int (char_code c) - 48)) cs"

definition stod :: "string \<Rightarrow> error + binary64" where
  "stod s =
     (let ip = takeWhile is_digit s;
          rest = dropWhile is_digit s;
          fp = (case rest of [] \<Rightarrow> [] | c # cs \<Rightarrow> if c = CHR ''.'' then takeWhile is_digit cs else []);
          n = digits_value 0 (ip @ fp);
          d = 10 ^ length fp;
          v = to_binary64 n d 0
      in if ip = [] \<and> fp = [] then Inl Invalid_argument
         else if n = 0 then Inr v
         else if 971 < expo v then Inl Out_of_range
         else if expo v < - 1074
              then (if (n * 2 ^ 1074) mod d = 0 then Inr (B64 ((n * 2 ^ 1074) div d) (- 1074))
                    else Inl Out_of_range)
         else Inr v)"

text \<open>\<open>static_cast<int>(std::stod(s))\<close>.\<close>

definition stod_int :: "string \<Rightarrow> error + int" where
  "stod_int s = (case stod s of Inl e \<Rightarrow> Inl e | Inr v \<Rightarrow> static_cast_int (dbl_trunc v))"

section \<open>Signal Synthesizer\<close>

type_synonym sample = "binary64 \<times> bool list"

definition lit_0_1 :: binary64 where
  "lit_0_1 = to_binary64 1 10 0"

definition y_sig :: "binary64 \<Rightarrow> bool" where
  "y_sig t = dbl_less t (double_of_int 10)"

definition z_sig :: "binary64 \<Rightarrow> bool" where
  "z_sig t = (dbl_le (double_of_int 5) t \<and> dbl_less t (double_of_int 15))"

definition x_sig :: "binary64 \<Rightarrow> bool" where
  "x_sig t = (dbl_le (double_of_int 8) t \<and> dbl_less t (double_of_int 20))"

text \<open>
  The loop \<^verbatim>\<open>for (double t = 0; t <= T; t += 0.1)\<close>. For a large \<open>T\<close> the sum stops growing
  and the loop does not end, so the result is an option.
\<close>

partial_function (option) signal_loop :: "binary64 \<Rightarrow> binary64 \<Rightarrow> sample list \<Rightarrow> sample list option" where
  "signal_loop T t signal =
     (if dbl_le t T
      then signal_loop T (dbl_add t lit_0_1) (signal @ [(t, [y_sig t, z_sig t, x_sig t])])
      else Some signal)"

declare signal_loop.simps [code]

definition synthesizeSignal :: "binary64 \<Rightarrow> sample list option" where
  "synthesizeSignal T = signal_loop T (double_of_int 0) []"

section \<open>Partition-Point Constructor\<close>

text \<open>\<open>std::set<int>\<close> is an ascending list without duplicates.\<close>

fun set_insert :: "int \<Rightarrow> int list \<Rightarrow> int list" where
  "set_insert v [] = [v]"
| "set_insert v (u # us) =
     (if v < u then v # u # us else if v = u then u # us else u # set_insert v us)"

text \<open>
  The loop over \<open>i = 1, ..., signal.size() - 1\<close>, as a walk over the pairs of neighbours.
\<close>

fun partition_scan :: "sample list \<Rightarrow> int list \<Rightarrow> error + int list" where
  "partition_scan (p # q # signal) partitionPoints =
     (if snd q \<noteq> snd p
      then (case static_cast_int (dbl_round (fst q)) of
              Inl e \<Rightarrow> Inl e
            | Inr v \<Rightarrow> partition_scan (q # signal) (set_insert v partitionPoints))
      else partition_scan (q # signal) partitionPoints)"
| "partition_scan signal partitionPoints = Inr partitionPoints"

definition constructStablePartitions :: "sample list \<Rightarrow> error + int list" where
  "constructStablePartitions signal = partition_scan signal []"


section \<open>Temporal Partitioner\<close>

text \<open>
  The pattern
  \<^verbatim>\<open>\bG\s*\[\s*([\d\.]+)\s*,\s*([\d\.]+)\s*\]\s*\(\(p2\)\s*U\s*\(p3\)\)\<close>
  of \<open>partitionTemporalOperators\<close>. Its two groups are the items number 5 and 9.
\<close>

definition bound_atom :: atom where
  "bound_atom = OneOf [DigitC, Chr CHR ''.'']"

definition gPattern :: "item list" where
  "gPattern =
     [WordB, One (Chr CHR ''G''), Star SpaceC, One (Chr CHR ''[''), Star SpaceC,
      Plus bound_atom, Star SpaceC, One (Chr CHR '',''), Star SpaceC,
      Plus bound_atom, Star SpaceC, One (Chr CHR '']''), Star SpaceC,
      One (Chr CHR ''(''), One (Chr CHR ''(''), One (Chr CHR ''p''), One (Chr CHR ''2''),
      One (Chr CHR '')''), Star SpaceC, One (Chr CHR ''U''), Star SpaceC,
      One (Chr CHR ''(''), One (Chr CHR ''p''), One (Chr CHR ''3''), One (Chr CHR '')''),
      One (Chr CHR '')'')]"

text \<open>The sign of conjunction is the three bytes of its UTF-8 encoding.\<close>

definition and_sign :: string where
  "and_sign = [CHR 0xE2, CHR 0x88, CHR 0xA7]"

definition conjunct :: "int \<Rightarrow> int \<Rightarrow> string" where
  "conjunct lo hi = ''G ['' @ to_string lo @ '', '' @ to_string hi @ ''] ((p2) U (p3)) ''"

text \<open>\<open>partitionPoints.lower_bound(a)\<close>: the elements from the first one not below \<open>a\<close> on.\<close>

definition lower_bound :: "int \<Rightarrow> int list \<Rightarrow> int list" where
  "lower_bound a partitionPoints = dropWhile (\<lambda>t. t < a) partitionPoints"

text \<open>
  The \<open>while\<close> loop of \<open>partitionTemporalOperators\<close>, on the elements the iterator has
  still to visit; it returns \<open>prev\<close> and \<open>replacement\<close>. \<open>t + 1\<close> overflows when \<open>t\<close> is
  \<open>INT_MAX\<close>, which is undefined behaviour.
\<close>

fun partition_loop :: "int \<Rightarrow> int \<Rightarrow> int list \<Rightarrow> string \<Rightarrow> error + (int \<times> string)" where
  "partition_loop b prev [] replacement = Inr (prev, replacement)"
| "partition_loop b prev (t # its) replacement =
     (if t \<le> b
      then (let replacement' =
                  (if prev \<le> t
                   then replacement @ conjunct prev t @ (if t < b then and_sign @ '' '' else [])
                   else replacement)
            in if t = INT_MAX then Inl Undefined_behaviour
               else partition_loop b (t + 1) its replacement')
      else Inr (prev, replacement))"

definition make_replacement :: "int \<Rightarrow> int \<Rightarrow> int list \<Rightarrow> error + string" where
  "make_replacement a b partitionPoints =
     (case partition_loop b a (lower_bound a partitionPoints) [] of
        Inl e \<Rightarrow> Inl e
      | Inr (prev, replacement) \<Rightarrow>
          Inr (if prev \<le> b then replacement @ conjunct prev b else replacement))"

text \<open>The conjuncts of a replacement, given by their intervals.\<close>

definition render :: "int \<Rightarrow> (int \<times> int) list \<Rightarrow> string" where
  "render b ivs =
     concat (map (\<lambda>(lo, hi). conjunct lo hi @ (if hi < b then and_sign @ '' '' else [])) ivs)"

definition partitionTemporalOperators :: "string \<Rightarrow> int list \<Rightarrow> error + string" where
  "partitionTemporalOperators mitlFormula partitionPoints =
     (case regex_search gPattern None mitlFormula of
        None \<Rightarrow> Inr mitlFormula
      | Some (pre, cs, r) \<Rightarrow>
          (case stod_int (capture 5 cs) of
             Inl e \<Rightarrow> Inl e
           | Inr a \<Rightarrow>
               (case stod_int (capture 9 cs) of
                  Inl e \<Rightarrow> Inl e
                | Inr b \<Rightarrow>
                    (case make_replacement a b partitionPoints of
                       Inl e \<Rightarrow> Inl e
                     | Inr replacement \<Rightarrow> Inr (regex_replace gPattern replacement mitlFormula)))))"

section \<open>The program\<close>

text \<open>
  A run of \<open>main\<close> reads the formula (a line of standard input) and the file name (the
  next token), and ends in one of these ways: it returns from \<open>main\<close> with a status, an
  exception nobody catches ends it through \<open>std::terminate\<close>, its behaviour is undefined,
  or it does not end. The transcript on standard output is left out; what is kept is the
  status, the file written and the diagnostic stream.
\<close>

datatype ending = Exit int | Terminate error | Undefined | Diverge

record run =
  ending :: ending
  written :: "(string \<times> string) option"
  diagnostics :: string

definition failed :: "error \<Rightarrow> run" where
  "failed e =
     \<lparr>ending = (if e = Undefined_behaviour then Undefined else Terminate e),
      written = None, diagnostics = []\<rparr>"

definition main :: "(string \<Rightarrow> bool) \<Rightarrow> string \<Rightarrow> string \<Rightarrow> run" where
  "main can_open stlFormula filename =
     (let atomicProps = extractAtomicPropositions stlFormula;
          propMap = build_propMap atomicProps
      in case synthesizeSignal (double_of_int 30) of
           None \<Rightarrow> \<lparr>ending = Diverge, written = None, diagnostics = []\<rparr>
         | Some signal \<Rightarrow>
             (case constructStablePartitions signal of
                Inl e \<Rightarrow> failed e
              | Inr partitionPoints \<Rightarrow>
                  (case partitionTemporalOperators (replaceAtomicProps stlFormula propMap) partitionPoints of
                     Inl e \<Rightarrow> failed e
                   | Inr mitlFormula \<Rightarrow>
                       (let w = writeMITLToFile can_open mitlFormula filename
                        in \<lparr>ending = Exit 0, written = file_written w,
                             diagnostics = cerr_text w\<rparr>))))"


section \<open>The matcher finds exactly the conforming texts\<close>

lemma grow_Some_iff:
  "grow x m = Some (cs, r) \<longleftrightarrow>
     (\<exists>c cs'. m = Some (c # cs', r) \<and> cs = (x # c) # cs') \<or> (m = Some ([], r) \<and> cs = [[x]])"
  by (cases "(x, m)" rule: grow.cases) auto

lemma matchI_Star_chunks:
  "matchI (Star a # is) nn prev s = Some (cs, r) \<Longrightarrow> cs \<noteq> []"
  by (cases s) (auto simp: chunk_Some grow_Some_iff split: if_splits option.splits)

lemma last_char_Cons: "last_char prev (x # c) = last_char (Some x) c"
  by simp

lemma matchI_sound:
  "matchI is nn prev s = Some (cs, r) \<Longrightarrow> conforms is prev cs r"
proof (induction "is" nn prev s arbitrary: cs r rule: matchI.induct)
  case (1 nn prev s)
  then show ?case by (simp split: if_splits)
next
  case (2 "is" nn prev s)
  from 2(2) have b: "word_opt prev \<noteq> word_opt (next_char s)"
    and "chunk [] (matchI is nn prev s) = Some (cs, r)" by (auto split: if_splits)
  then obtain cs' where cs: "cs = [] # cs'" and m: "matchI is nn prev s = Some (cs', r)"
    by (auto simp: chunk_Some)
  from matchI_consumes [OF m] have "s = concat cs' @ r" by simp
  with 2(1) [OF b m] b cs show ?case by simp
next
  case (3 a "is" nn prev)
  then show ?case by simp
next
  case (4 a "is" nn prev x xs)
  from 4(2) have ax: "atom_matches a x" and "chunk [x] (matchI is False (Some x) xs) = Some (cs, r)"
    by (auto split: if_splits)
  then obtain cs' where cs: "cs = [x] # cs'" and m: "matchI is False (Some x) xs = Some (cs', r)"
    by (auto simp: chunk_Some)
  from 4(1) [OF ax m] ax cs show ?case by simp
next
  case (5 a "is" nn prev)
  then obtain cs' where cs: "cs = [] # cs'" and m: "matchI is nn prev [] = Some (cs', r)"
    by (auto simp: chunk_Some)
  from 5(1) [OF m] cs show ?case by simp
next
  case (6 a "is" nn prev x xs)
  show ?case
  proof (cases "atom_matches a x")
    case True
    show ?thesis
    proof (cases "matchI is False (Some x) xs")
      case None
      with True 6(4) obtain cs' where cs: "cs = [] # cs'" and m: "matchI is nn prev (x # xs) = Some (cs', r)"
        by (auto simp: chunk_Some)
      from 6(2) [OF True None m] cs show ?thesis by simp
    next
      case (Some p)
      obtain cs' r' where p: "p = (cs', r')" by (cases p)
      with True Some 6(4) have cs: "cs = [x] # cs'" and r: "r' = r" by simp_all
      from 6(1) [OF True] Some p r have "conforms is (Some x) cs' r" by simp
      with cs True show ?thesis by simp
    qed
  next
    case False
    with 6(4) obtain cs' where cs: "cs = [] # cs'" and m: "matchI is nn prev (x # xs) = Some (cs', r)"
      by (auto simp: chunk_Some)
    from 6(3) [OF False m] cs show ?thesis by simp
  qed
next
  case (7 a "is" nn prev)
  then obtain cs' where cs: "cs = [] # cs'" and m: "matchI is nn prev [] = Some (cs', r)"
    by (auto simp: chunk_Some)
  from 7(1) [OF m] cs show ?case by simp
next
  case (8 a "is" nn prev x xs)
  show ?case
  proof (cases "atom_matches a x")
    case True
    show ?thesis
    proof (cases "matchI (Star a # is) False (Some x) xs")
      case None
      with True 8(4) obtain cs' where cs: "cs = [] # cs'" and m: "matchI is nn prev (x # xs) = Some (cs', r)"
        by (auto simp: chunk_Some)
      from 8(2) [OF True None m] cs show ?thesis by simp
    next
      case (Some p)
      obtain cs' r' where p: "p = (cs', r')" by (cases p)
      from Some p have "cs' \<noteq> []" by (auto dest: matchI_Star_chunks)
      then obtain c cs'' where c: "cs' = c # cs''" by (cases cs') auto
      with True Some p 8(4) have cs: "cs = (x # c) # cs''" and r: "r' = r" by simp_all
      from 8(1) [OF True] Some p r c have "conforms (Star a # is) (Some x) (c # cs'') r" by simp
      with cs True show ?thesis by simp
    qed
  next
    case False
    with 8(4) obtain cs' where cs: "cs = [] # cs'" and m: "matchI is nn prev (x # xs) = Some (cs', r)"
      by (auto simp: chunk_Some)
    from 8(3) [OF False m] cs show ?thesis by simp
  qed
next
  case (9 a "is" nn prev)
  then show ?case by simp
next
  case (10 a "is" nn prev x xs)
  from 10(2) have ax: "atom_matches a x"
    and e: "grow x (matchI (Star a # is) False (Some x) xs) = Some (cs, r)"
    by (auto split: if_splits)
  from e obtain p where Some: "matchI (Star a # is) False (Some x) xs = Some p"
    by (cases "matchI (Star a # is) False (Some x) xs") auto
  obtain cs' r' where p: "p = (cs', r')" by (cases p)
  from Some p have "cs' \<noteq> []" by (auto dest: matchI_Star_chunks)
  then obtain c cs'' where c: "cs' = c # cs''" by (cases cs') auto
  with e Some p have cs: "cs = (x # c) # cs''" and r: "r' = r" by simp_all
  from 10(1) [OF ax] Some p r c have "conforms (Star a # is) (Some x) (c # cs'') r" by simp
  with cs ax show ?case by simp
qed


lemma chunk_None: "chunk c m = None \<longleftrightarrow> m = None"
  by (cases m) auto

lemma grow_None: "grow x m = None \<longleftrightarrow> m = None"
  by (cases "(x, m)" rule: grow.cases) auto

lemma conforms_Cons:
  "conforms (i # is) prev cs r \<longleftrightarrow>
     (\<exists>c cs'. cs = c # cs' \<and> item_ok i prev c (concat cs' @ r) \<and> conforms is (last_char prev c) cs' r)"
  by (cases cs) auto

lemma conforms_Nil: "conforms [] prev cs r \<longleftrightarrow> cs = []"
  by (cases cs) auto

lemma matchI_complete_aux:
  "s = concat cs @ r \<Longrightarrow> conforms is prev cs r \<Longrightarrow> (nn \<longrightarrow> concat cs \<noteq> []) \<Longrightarrow>
   matchI is nn prev s \<noteq> None"
proof (induction "is" nn prev s arbitrary: cs r rule: matchI.induct)
  case (1 nn prev s)
  then show ?case by (simp add: conforms_Nil)
next
  case (2 "is" nn prev s)
  from 2(3) obtain cs' where cs: "cs = [] # cs'"
    and b: "word_opt prev \<noteq> word_opt (next_char (concat cs' @ r))"
    and c: "conforms is prev cs' r"
    by (auto simp: conforms_Cons)
  from 2(2) cs have s: "s = concat cs' @ r" by simp
  from b s have b': "word_opt prev \<noteq> word_opt (next_char s)" by simp
  from 2(4) cs have "nn \<longrightarrow> concat cs' \<noteq> []" by simp
  from 2(1) [OF b' s c this] b' show ?case by (simp add: chunk_None)
next
  case (3 a "is" nn prev)
  then show ?case by (auto simp: conforms_Cons)
next
  case (4 a "is" nn prev x xs)
  from 4(3) obtain c cs' where cs: "cs = c # cs'" and l: "length c = 1"
    and a: "list_all (atom_matches a) c" and c: "conforms is (last_char prev c) cs' r"
    by (auto simp: conforms_Cons)
  from l obtain y where y: "c = [y]" by (cases c) auto
  with 4(2) cs have x: "y = x" and xs: "xs = concat cs' @ r" by simp_all
  from a y x have ax: "atom_matches a x" by simp
  from c y x have "conforms is (Some x) cs' r" by simp
  from 4(1) [OF ax xs this] ax show ?case by (simp add: chunk_None)
next
  case (5 a "is" nn prev)
  from 5(3) obtain c cs' where cs: "cs = c # cs'" and c: "conforms is (last_char prev c) cs' r"
    by (auto simp: conforms_Cons)
  from 5(2) cs have e: "c = []" and s: "[] = concat cs' @ r" by simp_all
  from 5(4) cs e have "nn \<longrightarrow> concat cs' \<noteq> []" by simp
  from 5(1) [OF s _ this] c e show ?case by (simp add: chunk_None)
next
  case (6 a "is" nn prev x xs)
  from 6(5) obtain c cs' where cs: "cs = c # cs'" and l: "length c \<le> 1"
    and a: "list_all (atom_matches a) c" and c: "conforms is (last_char prev c) cs' r"
    by (auto simp: conforms_Cons)
  show ?case
  proof (cases c)
    case Nil
    with 6(4) cs have s: "x # xs = concat cs' @ r" by simp
    from 6(6) cs Nil have n: "nn \<longrightarrow> concat cs' \<noteq> []" by simp
    from c Nil have c': "conforms is prev cs' r" by simp
    show ?thesis
    proof (cases "atom_matches a x")
      case True
      show ?thesis
      proof (cases "matchI is False (Some x) xs")
        case None
        from 6(2) [OF True None s c' n] True None show ?thesis by (simp add: chunk_None)
      next
        case (Some p)
        with True show ?thesis by (simp split: prod.splits)
      qed
    next
      case False
      from 6(3) [OF False s c' n] False show ?thesis by (simp add: chunk_None)
    qed
  next
    case (Cons y ys)
    with l have ys: "ys = []" by simp
    with 6(4) cs Cons have x: "y = x" and xs: "xs = concat cs' @ r" by simp_all
    from a Cons x have ax: "atom_matches a x" by simp
    from c Cons ys x have "conforms is (Some x) cs' r" by simp
    from 6(1) [OF ax xs this] have "matchI is False (Some x) xs \<noteq> None" by simp
    with ax show ?thesis by (auto split: prod.splits)
  qed
next
  case (7 a "is" nn prev)
  from 7(3) obtain c cs' where cs: "cs = c # cs'" and c: "conforms is (last_char prev c) cs' r"
    by (auto simp: conforms_Cons)
  from 7(2) cs have e: "c = []" and s: "[] = concat cs' @ r" by simp_all
  from 7(4) cs e have "nn \<longrightarrow> concat cs' \<noteq> []" by simp
  from 7(1) [OF s _ this] c e show ?case by (simp add: chunk_None)
next
  case (8 a "is" nn prev x xs)
  from 8(5) obtain c cs' where cs: "cs = c # cs'"
    and a: "list_all (atom_matches a) c" and c: "conforms is (last_char prev c) cs' r"
    by (auto simp: conforms_Cons)
  show ?case
  proof (cases c)
    case Nil
    with 8(4) cs have s: "x # xs = concat cs' @ r" by simp
    from 8(6) cs Nil have n: "nn \<longrightarrow> concat cs' \<noteq> []" by simp
    from c Nil have c': "conforms is prev cs' r" by simp
    show ?thesis
    proof (cases "atom_matches a x")
      case True
      show ?thesis
      proof (cases "matchI (Star a # is) False (Some x) xs")
        case None
        from 8(2) [OF True None s c' n] True None show ?thesis by (simp add: chunk_None)
      next
        case (Some p)
        with True show ?thesis by (simp add: grow_None)
      qed
    next
      case False
      from 8(3) [OF False s c' n] False show ?thesis by (simp add: chunk_None)
    qed
  next
    case (Cons y ys)
    with 8(4) cs have x: "y = x" and xs: "xs = concat (ys # cs') @ r" by simp_all
    from a Cons x have ax: "atom_matches a x" and ays: "list_all (atom_matches a) ys" by simp_all
    from c Cons x ays have "conforms (Star a # is) (Some x) (ys # cs') r" by simp
    from 8(1) [OF ax xs this] obtain p where "matchI (Star a # is) False (Some x) xs = Some p"
      by auto
    with ax show ?thesis by (simp add: grow_None)
  qed
next
  case (9 a "is" nn prev)
  then show ?case by (auto simp: conforms_Cons)
next
  case (10 a "is" nn prev x xs)
  from 10(3) obtain c cs' where cs: "cs = c # cs'" and ne: "c \<noteq> []"
    and a: "list_all (atom_matches a) c" and c: "conforms is (last_char prev c) cs' r"
    by (auto simp: conforms_Cons)
  from ne obtain y ys where Cons: "c = y # ys" by (cases c) auto
  with 10(2) cs have x: "y = x" and xs: "xs = concat (ys # cs') @ r" by simp_all
  from a Cons x have ax: "atom_matches a x" and ays: "list_all (atom_matches a) ys" by simp_all
  from c Cons x ays have "conforms (Star a # is) (Some x) (ys # cs') r" by simp
  from 10(1) [OF ax xs this] have "matchI (Star a # is) False (Some x) xs \<noteq> None" by simp
  with ax show ?case by (simp add: grow_None)
qed

lemma matchI_complete:
  "conforms is prev cs r \<Longrightarrow> (nn \<longrightarrow> concat cs \<noteq> []) \<Longrightarrow> matchI is nn prev (concat cs @ r) \<noteq> None"
  using matchI_complete_aux [OF refl] by blast

lemma regex_search_None:
  "regex_search is prev s = None \<Longrightarrow> s = p @ t \<Longrightarrow> matchI is False (last_char prev p) t = None"
proof (induction "is" prev s arbitrary: p rule: regex_search.induct)
  case (1 "is" prev)
  then show ?case by (auto split: option.splits)
next
  case (2 "is" prev x xs)
  from 2(2) have m: "matchI is False prev (x # xs) = None"
    and r: "regex_search is (Some x) xs = None"
    by (auto split: option.splits simp: skipped_Some intro: ccontr)
  show ?case
  proof (cases p)
    case Nil
    with 2(3) m show ?thesis by simp
  next
    case (Cons y p')
    with 2(3) have "y = x" "xs = p' @ t" by simp_all
    with 2(1) [OF m r, of p'] Cons show ?thesis by simp
  qed
qed

lemma regex_search_Some:
  "regex_search is prev s = Some (pre, cs, r) \<Longrightarrow>
     matchI is False (last_char prev pre) (concat cs @ r) = Some (cs, r)
     \<and> (\<forall>p t. pre = p @ t \<and> t \<noteq> [] \<longrightarrow> matchI is False (last_char prev p) (t @ concat cs @ r) = None)"
proof (induction "is" prev s arbitrary: pre rule: regex_search.induct)
  case (1 "is" prev)
  then have m: "matchI is False prev [] = Some (cs, r)" and pre: "pre = []"
    by (auto split: option.splits)
  from matchI_consumes [OF m] have "concat cs @ r = []" by simp
  with m have "matchI is False prev (concat cs @ r) = Some (cs, r)" by (simp only:)
  with pre show ?case by simp
next
  case (2 "is" prev x xs)
  show ?case
  proof (cases "matchI is False prev (x # xs)")
    case None
    with 2(2) obtain pre' where pre: "pre = x # pre'"
      and r: "regex_search is (Some x) xs = Some (pre', cs, r)"
      by (auto simp: skipped_Some)
    from 2(1) [OF None r] have
      a: "matchI is False (last_char (Some x) pre') (concat cs @ r) = Some (cs, r)"
      and b: "\<forall>p t. pre' = p @ t \<and> t \<noteq> [] \<longrightarrow> matchI is False (last_char (Some x) p) (t @ concat cs @ r) = None"
      by simp_all
    from regex_search_consumes [OF r] have xs: "xs = pre' @ concat cs @ r" .
    have "matchI is False (last_char prev p) (t @ concat cs @ r) = None"
      if "pre = p @ t" "t \<noteq> []" for p t
    proof (cases p)
      case Nil
      with that pre have t: "t = x # pre'" by simp
      from None xs have "matchI is False prev ((x # pre') @ concat cs @ r) = None" by simp
      with Nil show ?thesis unfolding t by simp
    next
      case (Cons y p')
      with that pre have "y = x" "pre' = p' @ t" by simp_all
      with b that(2) Cons show ?thesis by simp
    qed
    with a pre show ?thesis by simp
  next
    case (Some m)
    with 2(2) have "pre = []" "m = (cs, r)" by (auto split: prod.splits)
    with Some matchI_consumes [of "is" False prev "x # xs" cs r] show ?thesis by simp
  qed
qed

section \<open>Properties of the Proposition Extractor\<close>

lemma length_1_iff: "length c = 1 \<longleftrightarrow> (\<exists>x. c = [x])"
  by (cases c) auto

lemma length_le_1_iff: "length c \<le> 1 \<longleftrightarrow> c = [] \<or> (\<exists>x. c = [x])"
  by (cases c) auto

lemma conforms_length: "conforms is prev cs r \<Longrightarrow> length cs = length is"
  by (induction "is" prev cs r rule: conforms.induct) auto

lemma conforms_propPattern:
  "conforms propPattern prev cs r \<longleftrightarrow>
     (\<exists>w s1 x e s2 n. cs = [w, s1, [x], e, s2, n]
        \<and> w \<noteq> [] \<and> list_all is_word w \<and> list_all is_space s1
        \<and> (x = CHR ''<'' \<or> x = CHR ''>'') \<and> (e = [] \<or> e = ''='')
        \<and> list_all is_space s2 \<and> n \<noteq> [] \<and> list_all (\<lambda>c. is_digit c \<or> c = CHR ''.'') n)"
  (is "?L \<longleftrightarrow> ?R")
proof
  assume L: ?L
  from conforms_length [OF L] have "length cs = 6" by (simp add: propPattern_def)
  then obtain w s1 o1 e s2 n where cs: "cs = [w, s1, o1, e, s2, n]"
    by (auto simp: numeral_eq_Suc length_Suc_conv)
  from L cs have w: "w \<noteq> []" "list_all is_word w" and s1: "list_all is_space s1"
    and o1: "length o1 = 1" "list_all (\<lambda>c. c = CHR ''<'' \<or> c = CHR ''>'') o1"
    and e: "length e \<le> 1" "list_all (\<lambda>c. c = CHR ''='') e"
    and s2: "list_all is_space s2"
    and n: "n \<noteq> []" "list_all (\<lambda>c. is_digit c \<or> c = CHR ''.'') n"
    by (simp_all add: propPattern_def list_all_iff)
  from o1(1) obtain x where x1: "o1 = [x]" by (cases o1) auto
  with o1(2) have x: "o1 = [x]" "x = CHR ''<'' \<or> x = CHR ''>''" by simp_all
  have "e = [] \<or> e = ''=''"
  proof (cases e)
    case (Cons y ys)
    with e show ?thesis by simp
  qed simp
  with cs w s1 x s2 n show ?R by blast
next
  assume ?R
  then obtain w s1 x e s2 n where cs: "cs = [w, s1, [x], e, s2, n]"
    and w: "w \<noteq> []" "list_all is_word w" "list_all is_space s1"
    and xe: "x = CHR ''<'' \<or> x = CHR ''>''" "e = [] \<or> e = ''=''"
    and n: "list_all is_space s2" "n \<noteq> []" "list_all (\<lambda>c. is_digit c \<or> c = CHR ''.'') n"
    by blast
  from xe(1) have a: "atom_matches (OneOf [Chr CHR ''<'', Chr CHR ''>'']) x" by auto
  from xe(2) have b: "length e \<le> 1" "list_all (atom_matches (Chr CHR ''='')) e" by auto
  from n(3) have c: "list_all (atom_matches (OneOf [DigitC, Chr CHR ''.''])) n"
    by (simp add: list_all_iff)
  from w n a b c show ?L unfolding cs propPattern_def by (simp add: list_all_iff)
qed

lemma prop_shape_conforms:
  "prop_shape u \<longleftrightarrow> (\<exists>cs. u = concat cs \<and> conforms propPattern prev cs r)"
proof
  assume "prop_shape u"
  then obtain w s1 ro s2 n where u: "u = w @ s1 @ ro @ s2 @ n"
    and w: "w \<noteq> []" "list_all is_word w" "list_all is_space s1"
    and ro: "ro \<in> {''<'', ''>'', ''<='', ''>=''}"
    and n: "list_all is_space s2" "n \<noteq> []" "list_all (\<lambda>c. is_digit c \<or> c = CHR ''.'') n"
    unfolding prop_shape_def by blast
  from ro obtain x e where xe: "ro = x # e" "x = CHR ''<'' \<or> x = CHR ''>''" "e = [] \<or> e = ''=''"
    by auto
  have "conforms propPattern prev [w, s1, [x], e, s2, n] r"
    unfolding conforms_propPattern using w n xe by simp
  moreover have "u = concat [w, s1, [x], e, s2, n]" using u xe by simp
  ultimately show "\<exists>cs. u = concat cs \<and> conforms propPattern prev cs r" by blast
next
  assume "\<exists>cs. u = concat cs \<and> conforms propPattern prev cs r"
  then obtain w s1 x e s2 n where u: "u = concat [w, s1, [x], e, s2, n]"
    and w: "w \<noteq> []" "list_all is_word w" "list_all is_space s1"
    and xe: "x = CHR ''<'' \<or> x = CHR ''>''" "e = [] \<or> e = ''=''"
    and n: "list_all is_space s2" "n \<noteq> []" "list_all (\<lambda>c. is_digit c \<or> c = CHR ''.'') n"
    unfolding conforms_propPattern by blast
  from xe have "x # e \<in> {''<'', ''>'', ''<='', ''>=''}" by auto
  moreover from u have "u = w @ s1 @ (x # e) @ s2 @ n" by simp
  ultimately show "prop_shape u" unfolding prop_shape_def using w n by blast
qed

lemma prop_shape_nonempty: "prop_shape u \<Longrightarrow> u \<noteq> []"
  unfolding prop_shape_def by auto


lemma matchI_Star_only: "matchI [Star a] False prev s \<noteq> None"
proof (induction s arbitrary: prev)
  case Nil
  show ?case by simp
next
  case (Cons x xs)
  from Cons [of "Some x"] obtain p where "matchI [Star a] False (Some x) xs = Some p" by auto
  moreover have "grow x (Some p) \<noteq> None" by (simp add: grow_None)
  ultimately show ?case by auto
qed

lemma matchI_greedy_end:
  "matchI is nn prev s = Some (cs, r) \<Longrightarrow> is \<noteq> [] \<Longrightarrow> last is = Plus a \<or> last is = Star a \<Longrightarrow>
   r = [] \<or> \<not> atom_matches a (hd r)"
proof (induction "is" nn prev s arbitrary: cs r rule: matchI.induct)
  case (1 nn prev s)
  then show ?case by simp
next
  case (2 "is" nn prev s)
  from 2(2) have b: "word_opt prev \<noteq> word_opt (next_char s)"
    and m: "matchI is nn prev s = Some (tl cs, r)"
    by (auto simp: chunk_Some split: if_splits)
  from 2(4) have ne: "is \<noteq> []" by auto
  with 2(4) have "last is = Plus a \<or> last is = Star a" by simp
  from 2(1) [OF b m ne this] show ?case .
next
  case (3 a' "is" nn prev)
  then show ?case by simp
next
  case (4 a' "is" nn prev x xs)
  from 4(2) have ax: "atom_matches a' x"
    and m: "matchI is False (Some x) xs = Some (tl cs, r)"
    by (auto simp: chunk_Some split: if_splits)
  from 4(4) have ne: "is \<noteq> []" by auto
  with 4(4) have "last is = Plus a \<or> last is = Star a" by simp
  from 4(1) [OF ax m ne this] show ?case .
next
  case (5 a' "is" nn prev)
  from matchI_consumes [OF 5(2)] show ?case by simp
next
  case (6 a' "is" nn prev x xs)
  from 6(6) have ne: "is \<noteq> []" by auto
  with 6(6) have l: "last is = Plus a \<or> last is = Star a" by simp
  show ?case
  proof (cases "atom_matches a' x")
    case True
    show ?thesis
    proof (cases "matchI is False (Some x) xs")
      case None
      with True 6(4) have m: "matchI is nn prev (x # xs) = Some (tl cs, r)"
        by (auto simp: chunk_Some)
      from 6(2) [OF True None m ne l] show ?thesis .
    next
      case (Some p)
      with True 6(4) have "matchI is False (Some x) xs = Some (tl cs, r)"
        by (auto split: prod.splits)
      from 6(1) [OF True this ne l] show ?thesis .
    qed
  next
    case False
    with 6(4) have m: "matchI is nn prev (x # xs) = Some (tl cs, r)"
      by (auto simp: chunk_Some)
    from 6(3) [OF False m ne l] show ?thesis .
  qed
next
  case (7 a' "is" nn prev)
  from matchI_consumes [OF 7(2)] show ?case by simp
next
  case (8 a' "is" nn prev x xs)
  have skip: "r = [] \<or> \<not> atom_matches a (hd r)"
    if m: "matchI is nn prev (x # xs) = Some (cs', r)"
      and ih: "is \<noteq> [] \<Longrightarrow> last is = Plus a \<or> last is = Star a \<Longrightarrow> r = [] \<or> \<not> atom_matches a (hd r)"
      and stop: "atom_matches a' x \<Longrightarrow> matchI (Star a' # is) False (Some x) xs = None"
    for cs'
  proof (cases "is = []")
    case True
    with m have r: "r = x # xs" by (simp split: if_splits)
    from True 8(6) have a: "a' = a" by simp
    from True stop matchI_Star_only [of a' "Some x" xs] have "\<not> atom_matches a' x" by auto
    with r a show ?thesis by simp
  next
    case False
    with 8(6) have "last is = Plus a \<or> last is = Star a" by simp
    from ih [OF False this] show ?thesis .
  qed
  show ?case
  proof (cases "atom_matches a' x")
    case True
    show ?thesis
    proof (cases "matchI (Star a' # is) False (Some x) xs")
      case None
      with True 8(4) have m: "matchI is nn prev (x # xs) = Some (tl cs, r)"
        by (auto simp: chunk_Some)
      from skip [OF m 8(2) [OF True None m]] None show ?thesis by simp
    next
      case (Some p)
      with True 8(4) obtain cs' where "matchI (Star a' # is) False (Some x) xs = Some (cs', r)"
        by (auto dest!: grow_Some)
      from 8(1) [OF True this _ 8(6)] show ?thesis by simp
    qed
  next
    case False
    with 8(4) have m: "matchI is nn prev (x # xs) = Some (tl cs, r)"
      by (auto simp: chunk_Some)
    from skip [OF m 8(3) [OF False m]] False show ?thesis by simp
  qed
next
  case (9 a' "is" nn prev)
  then show ?case by simp
next
  case (10 a' "is" nn prev x xs)
  from 10(2) have ax: "atom_matches a' x"
    and e: "grow x (matchI (Star a' # is) False (Some x) xs) = Some (cs, r)"
    by (auto split: if_splits)
  from grow_Some [OF e] obtain cs' where m: "matchI (Star a' # is) False (Some x) xs = Some (cs', r)"
    by auto
  have "last (Star a' # is) = Plus a \<or> last (Star a' # is) = Star a"
    using 10(4) by (cases "is = []") auto
  from 10(1) [OF ax m _ this] show ?case by simp
qed

lemma takeWhile_run:
  "list_all P xs \<Longrightarrow> r = [] \<or> \<not> P (hd r) \<Longrightarrow> takeWhile P (xs @ r) = xs"
  by (induction xs) (auto simp: takeWhile_eq_Nil_iff)

lemma run_eq:
  assumes "xs @ r = ys @ q" "list_all P xs" "list_all P ys"
    and "r = [] \<or> \<not> P (hd r)" "q = [] \<or> \<not> P (hd q)"
  shows "xs = ys \<and> r = q"
proof -
  from takeWhile_run [OF assms(2,4)] takeWhile_run [OF assms(3,5)] assms(1)
  have "xs = ys" by simp
  with assms(1) show ?thesis by simp
qed

lemma run_then:
  assumes "list_all P a" "b \<noteq> []" "Q (hd b)" "\<And>c. P c \<Longrightarrow> Q c"
  shows "a @ b \<noteq> [] \<and> Q (hd (a @ b))"
  using assms by (cases a) auto

lemma space_not_word: "is_space c \<Longrightarrow> \<not> is_word c"
  by (auto simp: is_space_def is_word_def is_digit_def char_code_def)

lemma relop_facts:
  "\<not> is_word CHR ''<''" "\<not> is_word CHR ''>''" "\<not> is_space CHR ''<''" "\<not> is_space CHR ''>''"
  by (simp_all add: is_word_def is_space_def is_digit_def char_code_def)

lemma digdot_not_space: "digdot c \<Longrightarrow> \<not> is_space c"
  by (auto simp: digdot_def is_space_def is_digit_def char_code_def)

lemma digdot_not_eq: "digdot c \<Longrightarrow> c \<noteq> CHR ''=''"
  by (auto simp: digdot_def is_digit_def char_code_def)

lemma space_not_eq: "is_space c \<Longrightarrow> c \<noteq> CHR ''=''"
  by (auto simp: is_space_def char_code_def)

lemma prop_shape_parts:
  assumes "prop_shape u"
  obtains w s1 x e s2 n where "u = w @ s1 @ [x] @ e @ s2 @ n"
    "w \<noteq> []" "list_all is_word w" "list_all is_space s1" "x = CHR ''<'' \<or> x = CHR ''>''"
    "list_all (\<lambda>c. c = CHR ''='') e" "list_all is_space s2" "n \<noteq> []" "list_all digdot n"
proof -
  from assms obtain cs where u: "u = concat cs" and c: "conforms propPattern None cs []"
    using prop_shape_conforms [of u None "[]"] by blast
  from c obtain w s1 x e s2 n where cs: "cs = [w, s1, [x], e, s2, n]"
    and p: "w \<noteq> []" "list_all is_word w" "list_all is_space s1"
      "x = CHR ''<'' \<or> x = CHR ''>''" "e = [] \<or> e = ''=''"
      "list_all is_space s2" "n \<noteq> []" "list_all (\<lambda>c. is_digit c \<or> c = CHR ''.'') n"
    unfolding conforms_propPattern by blast
  from p(5) have e: "list_all (\<lambda>c. c = CHR ''='') e" by auto
  from p(8) have n: "list_all digdot n" by (simp add: digdot_def [abs_def])
  from u cs have "u = w @ s1 @ [x] @ e @ s2 @ n" by simp
  with p e n that show thesis by blast
qed

lemma shape_prefix_bounded:
  assumes m: "prop_shape m" and u: "prop_shape u" and eq: "m @ post = u @ q"
    and g: "post = [] \<or> \<not> digdot (hd post)"
  shows "length u \<le> length m"
proof -
  from m obtain w s1 x e s2 n where md: "m = w @ s1 @ [x] @ e @ s2 @ n"
    and mp: "w \<noteq> []" "list_all is_word w" "list_all is_space s1" "x = CHR ''<'' \<or> x = CHR ''>''"
    "list_all (\<lambda>c. c = CHR ''='') e" "list_all is_space s2" "n \<noteq> []" "list_all digdot n"
    by (rule prop_shape_parts)
  from u obtain w' s1' x' e' s2' n' where ud: "u = w' @ s1' @ [x'] @ e' @ s2' @ n'"
    and up: "w' \<noteq> []" "list_all is_word w'" "list_all is_space s1'" "x' = CHR ''<'' \<or> x' = CHR ''>''"
    "list_all (\<lambda>c. c = CHR ''='') e'" "list_all is_space s2'" "n' \<noteq> []" "list_all digdot n'"
    by (rule prop_shape_parts)
  from mp(7,8) have hn: "digdot (hd n)" by (cases n) auto
  from up(7,8) have hn': "digdot (hd n')" by (cases n') auto
  \<comment> \<open>the identifier\<close>
  have t1: "s1 @ ([x] @ e @ s2 @ n @ post) \<noteq> [] \<and> \<not> is_word (hd (s1 @ ([x] @ e @ s2 @ n @ post)))"
    by (rule run_then [OF mp(3)]) (use mp(4) in \<open>auto simp: relop_facts dest: space_not_word\<close>)
  have t1': "s1' @ ([x'] @ e' @ s2' @ n' @ q) \<noteq> [] \<and> \<not> is_word (hd (s1' @ ([x'] @ e' @ s2' @ n' @ q)))"
    by (rule run_then [OF up(3)]) (use up(4) in \<open>auto simp: relop_facts dest: space_not_word\<close>)
  from eq md ud have e1: "w @ (s1 @ ([x] @ e @ s2 @ n @ post)) = w' @ (s1' @ ([x'] @ e' @ s2' @ n' @ q))"
    by simp
  from run_eq [OF e1 mp(2) up(2)] t1 t1'
  have w: "w = w'" and e2: "s1 @ ([x] @ e @ s2 @ n @ post) = s1' @ ([x'] @ e' @ s2' @ n' @ q)"
    by blast+
  \<comment> \<open>the blanks before the relation\<close>
  from mp(4) have t2: "\<not> is_space (hd ([x] @ e @ s2 @ n @ post))" by (auto simp: relop_facts)
  from up(4) have t2': "\<not> is_space (hd ([x'] @ e' @ s2' @ n' @ q))" by (auto simp: relop_facts)
  from run_eq [OF e2 mp(3) up(3)] t2 t2'
  have s1: "s1 = s1'" and e3: "[x] @ e @ s2 @ n @ post = [x'] @ e' @ s2' @ n' @ q"
    by blast+
  then have x: "x = x'" and e4: "e @ (s2 @ (n @ post)) = e' @ (s2' @ (n' @ q))" by simp_all
  \<comment> \<open>the equals sign\<close>
  have t3: "s2 @ (n @ post) \<noteq> [] \<and> hd (s2 @ (n @ post)) \<noteq> CHR ''=''"
    by (rule run_then [OF mp(6)]) (use mp(7) hn in \<open>auto dest: digdot_not_eq space_not_eq\<close>)
  have t3': "s2' @ (n' @ q) \<noteq> [] \<and> hd (s2' @ (n' @ q)) \<noteq> CHR ''=''"
    by (rule run_then [OF up(6)]) (use up(7) hn' in \<open>auto dest: digdot_not_eq space_not_eq\<close>)
  from run_eq [OF e4 mp(5) up(5)] t3 t3'
  have e: "e = e'" and e5: "s2 @ (n @ post) = s2' @ (n' @ q)" by blast+
  \<comment> \<open>the blanks after the relation\<close>
  from mp(7) hn have t4: "\<not> is_space (hd (n @ post))" by (auto dest: digdot_not_space)
  from up(7) hn' have t4': "\<not> is_space (hd (n' @ q))" by (auto dest: digdot_not_space)
  from run_eq [OF e5 mp(6) up(6)] t4 t4'
  have s2: "s2 = s2'" and e6: "n @ post = n' @ q" by blast+
  \<comment> \<open>the number\<close>
  from takeWhile_run [OF mp(8) g] have "takeWhile digdot (n @ post) = n" .
  moreover from up(8) have "takeWhile digdot (n' @ q) = n' @ takeWhile digdot q"
    by (simp add: list_all_iff)
  ultimately have "n = n' @ takeWhile digdot q" using e6 by simp
  then have "length n' \<le> length n" by (metis length_append le_add1)
  with md ud w s1 x e s2 show ?thesis by simp
qed

lemma all_matches_leftmost_longest:
  "all_matches propPattern False prev s = (ms, suf) \<Longrightarrow>
     leftmost_longest_matches (map (\<lambda>(pre, cs). concat cs) ms) s"
proof (induction "length s" arbitrary: s prev ms suf rule: less_induct)
  case less
  show ?case
  proof (cases "regex_search propPattern prev s")
    case None
    with less(2) have ms: "ms = []" by (simp add: all_matches.simps [of _ False])
    have "\<not> prop_shape u" if "sublist u s" for u
    proof
      assume "prop_shape u"
      from that obtain p q where s: "s = p @ u @ q" by (auto simp: sublist_def)
      from \<open>prop_shape u\<close> obtain cs where u: "u = concat cs"
        and c: "conforms propPattern (last_char prev p) cs q"
        using prop_shape_conforms [of u "last_char prev p" q] by blast
      from matchI_complete [OF c, of False] u
      have "matchI propPattern False (last_char prev p) (u @ q) \<noteq> None" by simp
      with regex_search_None [OF None s] show False by simp
    qed
    with ms show ?thesis by simp
  next
    case (Some m)
    obtain pre cs r where m: "m = (pre, cs, r)" by (cases m)
    from Some m have srch: "regex_search propPattern prev s = Some (pre, cs, r)" by simp
    from regex_search_consumes [OF srch] have s: "s = pre @ concat cs @ r" .
    from regex_search_Some [OF srch]
    have mt: "matchI propPattern False (last_char prev pre) (concat cs @ r) = Some (cs, r)"
      and gap: "\<And>p t. pre = p @ t \<Longrightarrow> t \<noteq> [] \<Longrightarrow>
                 matchI propPattern False (last_char prev p) (t @ concat cs @ r) = None"
      by blast+
    from matchI_sound [OF mt] have conf: "conforms propPattern (last_char prev pre) cs r" .
    then have shape: "prop_shape (concat cs)"
      using prop_shape_conforms [of "concat cs" "last_char prev pre" r] by blast
    then have ne: "concat cs \<noteq> []" by (rule prop_shape_nonempty)
    obtain ms' suf' where rec: "all_matches propPattern False (last_char prev (pre @ concat cs)) r = (ms', suf')"
      by (cases "all_matches propPattern False (last_char prev (pre @ concat cs)) r")
    from srch have unf: "all_matches propPattern False prev s =
        (case all_matches propPattern (concat cs = []) (last_char prev (pre @ concat cs)) r of
           (ms, suf) \<Rightarrow> ((pre, cs) # ms, suf))"
      by (subst all_matches.simps) (simp del: concat_eq_Nil_conv)
    from ne have eq: "(concat cs = []) = False" by simp
    from less(2) have ms: "ms = (pre, cs) # ms'" unfolding unf eq rec by simp
    from s ne have "length r < length s" by (cases "concat cs") auto
    from less(1) [OF this rec] have ih: "leftmost_longest_matches (map (\<lambda>(pre, cs). concat cs) ms') r" .
    have nogap: "\<not> prop_shape u" if k: "k < length pre" and pu: "prefix u (drop k s)" for k u
    proof
      assume "prop_shape u"
      define p where "p = take k pre"
      define t where "t = drop k pre"
      from k have pt: "pre = p @ t" "t \<noteq> []" by (simp_all add: p_def t_def)
      from k s have d: "drop k s = t @ concat cs @ r" by (simp add: t_def)
      from pu d obtain q where q: "t @ concat cs @ r = u @ q" by (auto simp: prefix_def)
      from \<open>prop_shape u\<close> obtain cs' where u: "u = concat cs'"
        and c: "conforms propPattern (last_char prev p) cs' q"
        using prop_shape_conforms [of u "last_char prev p" q] by blast
      from matchI_complete [OF c, of False] u
      have "matchI propPattern False (last_char prev p) (u @ q) \<noteq> None" by simp
      with gap [OF pt] q show False by simp
    qed
    have "r = [] \<or> \<not> atom_matches (OneOf [DigitC, Chr CHR ''.'']) (hd r)"
      by (rule matchI_greedy_end [OF mt]) (simp_all add: propPattern_def)
    then have stop: "r = [] \<or> \<not> digdot (hd r)" by (simp add: digdot_def)
    have longest: "length u \<le> length (concat cs)"
      if "prefix u (concat cs @ r)" "prop_shape u" for u
    proof -
      from that(1) obtain q where "concat cs @ r = u @ q" by (auto simp: prefix_def)
      from shape_prefix_bounded [OF shape that(2) this stop] show ?thesis .
    qed
    have "\<exists>pre' post. s = pre' @ concat cs @ post \<and> prop_shape (concat cs)
        \<and> (\<forall>k u. k < length pre' \<and> prefix u (drop k s) \<longrightarrow> \<not> prop_shape u)
        \<and> (\<forall>u. prefix u (concat cs @ post) \<and> prop_shape u \<longrightarrow> length u \<le> length (concat cs))
        \<and> leftmost_longest_matches (map (\<lambda>(pre, cs). concat cs) ms') post"
      using s shape nogap longest ih by blast
    with ms show ?thesis by simp
  qed
qed


lemma leftmost_longest_unique:
  "leftmost_longest_matches ms s \<Longrightarrow> leftmost_longest_matches ms' s \<Longrightarrow> ms = ms'"
proof (induction ms arbitrary: ms' s)
  case Nil
  show ?case
  proof (cases ms')
    case (Cons m' ms1')
    with Nil(2) obtain pre post where "s = pre @ m' @ post" "prop_shape m'" by auto
    then have "sublist m' s" "prop_shape m'" by (auto simp: sublist_def)
    with Nil(1) show ?thesis by simp
  qed simp
next
  case (Cons m ms1)
  from Cons(2) obtain pre post where s: "s = pre @ m @ post" and sh: "prop_shape m"
    and gap: "\<forall>k u. k < length pre \<and> prefix u (drop k s) \<longrightarrow> \<not> prop_shape u"
    and lng: "\<forall>u. prefix u (m @ post) \<and> prop_shape u \<longrightarrow> length u \<le> length m"
    and rest: "leftmost_longest_matches ms1 post"
    unfolding leftmost_longest_matches.simps by blast
  show ?case
  proof (cases ms')
    case Nil
    from s sh have "sublist m s" by (auto simp: sublist_def)
    with Nil Cons(3) sh show ?thesis by simp
  next
    case c: (Cons m' ms1')
    with Cons(3) have "leftmost_longest_matches (m' # ms1') s" by simp
    then obtain pre' post' where s': "s = pre' @ m' @ post'" and sh': "prop_shape m'"
      and gap': "\<forall>k u. k < length pre' \<and> prefix u (drop k s) \<longrightarrow> \<not> prop_shape u"
      and lng': "\<forall>u. prefix u (m' @ post') \<and> prop_shape u \<longrightarrow> length u \<le> length m'"
      and rest': "leftmost_longest_matches ms1' post'"
      unfolding leftmost_longest_matches.simps by blast
    have "\<not> length pre < length pre'"
    proof
      assume "length pre < length pre'"
      moreover from s have "prefix m (drop (length pre) s)" by simp
      ultimately show False using gap' sh by blast
    qed
    moreover have "\<not> length pre' < length pre"
    proof
      assume "length pre' < length pre"
      moreover from s' have "prefix m' (drop (length pre') s)" by simp
      ultimately show False using gap sh' by blast
    qed
    ultimately have "length pre = length pre'" by simp
    with s s' have pre: "pre = pre'" and e: "m @ post = m' @ post'" by auto
    from e have "prefix m' (m @ post)" by (simp add: prefix_def)
    with lng sh' have "length m' \<le> length m" by blast
    moreover from e have "prefix m (m' @ post')" by (metis prefixI)
    with lng' sh have "length m \<le> length m'" by blast
    ultimately have "length m = length m'" by simp
    with e have m: "m = m'" and p: "post = post'" by auto
    from Cons(1) [OF rest] rest' p have "ms1 = ms1'" by simp
    with m c show ?thesis by simp
  qed
qed

text \<open>
  Claim C6. For every input the Proposition Extractor returns the list of the substrings
  that match the shape \<open>identifier relop number\<close>, in left-to-right order of occurrence:
  the returned list is the one and only list of successive matches, each starting at
  the first position where an occurrence of the shape starts and reaching as far as an
  occurrence starting there can reach, so that a number is never cut short
  (\<open>y < 23 < 4\<close> gives \<open>y < 23\<close> and nothing else). Equal matches are all returned:
  \<open>y < 2 and y < 2\<close> gives two equal entries. The result is empty exactly when no
  substring of the input has the shape, as for the empty input. The function is total:
  there is no input on which it fails.
\<close>

theorem C6_extractor_leftmost_longest:
  "(leftmost_longest_matches ms s \<longleftrightarrow> ms = extractAtomicPropositions s)
   \<and> (extractAtomicPropositions s = [] \<longleftrightarrow> (\<forall>u. sublist u s \<longrightarrow> \<not> prop_shape u))
   \<and> extractAtomicPropositions ''y < 2 and y < 2'' = [''y < 2'', ''y < 2'']
   \<and> extractAtomicPropositions ''y < 23 < 4'' = [''y < 23'']
   \<and> extractAtomicPropositions [] = []"
proof -
  obtain ms0 suf where am: "all_matches propPattern False None s = (ms0, suf)"
    by (cases "all_matches propPattern False None s")
  then have ex: "extractAtomicPropositions s = map (\<lambda>(pre, cs). concat cs) ms0"
    by (simp add: extractAtomicPropositions_def)
  from all_matches_leftmost_longest [OF am] ex
  have lm: "leftmost_longest_matches (extractAtomicPropositions s) s" by simp
  have uniq: "leftmost_longest_matches ms s \<longleftrightarrow> ms = extractAtomicPropositions s"
    using lm leftmost_longest_unique [of ms s "extractAtomicPropositions s"] by blast
  have "extractAtomicPropositions s = [] \<longleftrightarrow> (\<forall>u. sublist u s \<longrightarrow> \<not> prop_shape u)"
  proof (cases "extractAtomicPropositions s")
    case Nil
    with lm show ?thesis by simp
  next
    case (Cons m ms')
    with lm obtain pre post where "s = pre @ m @ post" "prop_shape m" by auto
    then have "sublist m s" "prop_shape m" by (auto simp: sublist_def)
    with Cons show ?thesis by auto
  qed
  moreover have "extractAtomicPropositions ''y < 2 and y < 2'' = [''y < 2'', ''y < 2'']"
    by code_simp
  moreover have "extractAtomicPropositions ''y < 23 < 4'' = [''y < 23'']"
    by code_simp
  moreover have "extractAtomicPropositions [] = []"
    by code_simp
  ultimately show ?thesis using uniq by blast
qed

theorem C6_witness:
  "leftmost_longest_matches [''y < 23''] ''y < 23 < 4''
   \<and> \<not> leftmost_longest_matches [''y < 2'', ''3 < 4''] ''y < 23 < 4''
   \<and> prop_shape ''y < 23''
   \<and> \<not> (\<exists>u. sublist u ''x = 1'' \<and> prop_shape u)"
proof -
  have a: "extractAtomicPropositions ''y < 23 < 4'' = [''y < 23'']" by code_simp
  have b: "extractAtomicPropositions ''x = 1'' = []" by code_simp
  from C6_extractor_leftmost_longest [of "[''y < 23'']" "''y < 23 < 4''"] a
  have 1: "leftmost_longest_matches [''y < 23''] ''y < 23 < 4''" by simp
  from C6_extractor_leftmost_longest [of "[''y < 2'', ''3 < 4'']" "''y < 23 < 4''"] a
  have 2: "\<not> leftmost_longest_matches [''y < 2'', ''3 < 4''] ''y < 23 < 4''" by simp
  from 1 have 3: "prop_shape ''y < 23''" by auto
  from C6_extractor_leftmost_longest [of "[]" "''x = 1''"] b
  have 4: "\<not> (\<exists>u. sublist u ''x = 1'' \<and> prop_shape u)" by blast
  from 1 2 3 4 show ?thesis by blast
qed

section \<open>Properties of the Renamer\<close>

lemma matchI_key_items:
  "list_all2 dot_variant key t \<Longrightarrow> word_opt (last_char prev t) \<noteq> word_opt (next_char r) \<Longrightarrow>
   matchI (map key_item key @ [WordB]) False prev (t @ r) = Some (map (\<lambda>c. [c]) t @ [[]], r)"
proof (induction key t arbitrary: prev rule: list_all2_induct)
  case Nil
  then show ?case by simp
next
  case (Cons k key c t)
  from Cons(1) obtain a where k: "key_item k = One a" and a: "atom_matches a c"
    by (auto simp: dot_variant_def key_item_def split: if_splits)
  from Cons(3) [of "Some c"] Cons(4)
  have "matchI (map key_item key @ [WordB]) False (Some c) (t @ r) = Some (map (\<lambda>c. [c]) t @ [[]], r)"
    by simp
  with k a show ?case by simp
qed

lemma matchI_key_regex:
  assumes "list_all2 dot_variant key t"
    and "word_opt prev \<noteq> word_opt (next_char (t @ r))"
    and "word_opt (last_char prev t) \<noteq> word_opt (next_char r)"
  shows "matchI (key_regex key) False prev (t @ r) = Some ([] # map (\<lambda>c. [c]) t @ [[]], r)"
  using assms(2) matchI_key_items [OF assms(1,3)] by (simp add: key_regex_def)

lemma concat_singletons: "concat (map (\<lambda>c. [c]) t) = t"
  by (induction t) auto

lemma regex_search_key_end:
  "key \<noteq> [] \<Longrightarrow> regex_search (key_regex key) prev [] = None"
  by (cases key) (auto simp: key_regex_def key_item_def)

lemma all_matches_end:
  "regex_search is prev [] = None \<Longrightarrow> all_matches is False prev [] = ([], [])"
  by (subst all_matches.simps) simp

lemma replace_whole_variant:
  assumes v: "list_all2 dot_variant key t" and ne: "key \<noteq> []"
    and hd: "is_word (hd t)" and lst: "is_word (last t)"
  shows "replaceAtomicProps t [(key, name)] = name"
proof -
  from v ne obtain x xs where t: "t = x # xs" by (cases t) (auto simp: list_all2_Cons2)
  have lc: "last_char prev (x # xs) = Some (last (x # xs))" for prev
    by (induction xs arbitrary: x prev) auto
  from hd t have b1: "word_opt None \<noteq> word_opt (next_char (t @ []))" by simp
  from lst t lc have b2: "word_opt (last_char None t) \<noteq> word_opt (next_char [])" by simp
  from matchI_key_regex [OF v b1 b2]
  have m: "matchI (key_regex key) False None (x # xs) = Some ([] # map (\<lambda>c. [c]) t @ [[]], [])"
    by (simp add: t)
  then have s: "regex_search (key_regex key) None t = Some ([], [] # map (\<lambda>c. [c]) t @ [[]], [])"
    by (simp add: t)
  have c: "concat ([] # map (\<lambda>c. [c]) t @ [[]]) = t" by (simp add: concat_singletons)
  from t have cne: "(concat ([] # map (\<lambda>c. [c]) t @ [[]]) = []) = False" unfolding c by simp
  have "all_matches (key_regex key) False None t = ([([], [] # map (\<lambda>c. [c]) t @ [[]])], [])"
    apply (subst all_matches.simps)
    apply (simp only: s cne if_False option.case prod.case
             all_matches_end [OF regex_search_key_end [OF ne]] Let_def)
    done
  then show ?thesis by (simp add: regex_replace_def)
qed

lemma prop_shape_ends:
  assumes "prop_shape u"
  shows "u \<noteq> []" and "is_word (hd u)" and "is_digit (last u) \<or> last u = CHR ''.''"
proof -
  from assms obtain w s1 ro s2 n where u: "u = w @ s1 @ ro @ s2 @ n"
    and w: "w \<noteq> []" "list_all is_word w"
    and n: "n \<noteq> []" "list_all (\<lambda>c. is_digit c \<or> c = CHR ''.'') n"
    unfolding prop_shape_def by blast
  from u w show "u \<noteq> []" by simp
  from u w have "hd u = hd w" by simp
  with w show "is_word (hd u)" by (cases w) auto
  from u n have "last u = last n" by simp
  moreover from n have "last n \<in> set n" by simp
  ultimately show "is_digit (last u) \<or> last u = CHR ''.''"
    using n(2) by (auto simp: list_all_iff)
qed

lemma dot_not_word: "\<not> is_word CHR ''.''"
  by (simp add: is_word_def is_digit_def char_code_def)

lemma digit_is_word: "is_digit c \<Longrightarrow> is_word c"
  by (simp add: is_word_def)

lemma variant_update:
  assumes "i < length key" "key ! i = CHR ''.''" "c \<noteq> CHR 0x0A" "c \<noteq> CHR 0x0D"
  shows "list_all2 dot_variant key (key[i := c])"
  unfolding list_all2_conv_all_nth
proof (intro conjI allI impI)
  show "length key = length (key[i := c])" by simp
  fix j assume j: "j < length key"
  show "dot_variant (key ! j) (key[i := c] ! j)"
  proof (cases "j = i")
    case True
    with assms show ?thesis by (simp add: dot_variant_def)
  next
    case False
    then show ?thesis by (simp add: dot_variant_def)
  qed
qed

lemma replace_at_dot:
  assumes sh: "prop_shape key" and i: "i < length key" "key ! i = CHR ''.''"
    and c: "c \<noteq> CHR 0x0A" "c \<noteq> CHR 0x0D" and lst: "is_word (last (key[i := c]))"
  shows "replaceAtomicProps (key[i := c]) [(key, name)] = name"
proof -
  from prop_shape_ends [OF sh] have ne: "key \<noteq> []" and hd: "is_word (hd key)" by simp_all
  have "i \<noteq> 0"
  proof
    assume "i = 0"
    with i(2) ne have "hd key = CHR ''.''" by (cases key) auto
    with hd dot_not_word show False by simp
  qed
  with ne have "hd (key[i := c]) = hd key" by (cases key; cases i) auto
  with hd have h: "is_word (hd (key[i := c]))" by simp
  from replace_whole_variant [OF variant_update [OF i c] ne h lst] show ?thesis .
qed

text \<open>
  Claim C5. The Renamer does not escape the proposition text it uses as a pattern, so a
  dot of the text is the wildcard of the regular expression: it stands for any
  character (other than a line feed or a carriage return, as in every ECMAScript
  pattern), not only for a period. Put any such character \<open>c\<close> in place of a dot of a
  proposition text; if the result still ends in a word character, so that the closing
  \<open>\b\<close> holds at the end of the formula, the Renamer replaces it by the name of the
  proposition as if it were the proposition. Every proposition text with a dot has such
  a variant that differs from it at one dot only. With the entry \<open>x >= 0.3 \<mapsto> p1\<close> the
  formula \<open>x >= 0X3\<close> becomes \<open>p1\<close>; and in a run of the program the formula
  \<open>x >= 0.3 or x >= 0z3\<close> becomes \<open>p2.3 or p1\<close>, where \<open>x >= 0z3\<close> was taken for \<open>x >= 0.3\<close>.
\<close>

theorem C5_dot_is_wildcard:
  "(prop_shape key \<and> i < length key \<and> key ! i = CHR ''.'' \<and> c \<noteq> CHR 0x0A \<and> c \<noteq> CHR 0x0D
      \<and> is_word (last (key[i := c]))
      \<longrightarrow> replaceAtomicProps (key[i := c]) [(key, name)] = name)
   \<and> (prop_shape key \<and> CHR ''.'' \<in> set key
      \<longrightarrow> (\<exists>j d. j < length key \<and> key ! j = CHR ''.'' \<and> d \<noteq> CHR ''.''
              \<and> replaceAtomicProps (key[j := d]) [(key, name)] = name))
   \<and> replaceAtomicProps ''x >= 0X3'' [(''x >= 0.3'', ''p1'')] = ''p1''
   \<and> extractAtomicPropositions ''x >= 0.3 or x >= 0z3'' = [''x >= 0.3'', ''x >= 0'']
   \<and> replaceAtomicProps ''x >= 0.3 or x >= 0z3''
         (build_propMap (extractAtomicPropositions ''x >= 0.3 or x >= 0z3'')) = ''p2.3 or p1''"
proof -
  have gen: "replaceAtomicProps (key[i := c]) [(key, name)] = name"
    if "prop_shape key" "i < length key" "key ! i = CHR ''.''" "c \<noteq> CHR 0x0A" "c \<noteq> CHR 0x0D"
       "is_word (last (key[i := c]))"
    using replace_at_dot [OF that] .
  have ex: "\<exists>j d. j < length key \<and> key ! j = CHR ''.'' \<and> d \<noteq> CHR ''.''
              \<and> replaceAtomicProps (key[j := d]) [(key, name)] = name"
    if sh: "prop_shape key" and dot: "CHR ''.'' \<in> set key"
  proof -
    from prop_shape_ends [OF sh] have ne: "key \<noteq> []"
      and lst: "is_digit (last key) \<or> last key = CHR ''.''" by simp_all
    have X: "CHR ''X'' \<noteq> CHR 0x0A" "CHR ''X'' \<noteq> CHR 0x0D" "CHR ''X'' \<noteq> CHR ''.''" by simp_all
    have wX: "is_word CHR ''X''" by (simp add: is_word_def is_digit_def char_code_def)
    obtain j where j: "j < length key" "key ! j = CHR ''.''"
      and l: "is_word (last (key[j := CHR ''X'']))"
    proof (cases "last key = CHR ''.''")
      case True
      with ne have "key ! (length key - 1) = CHR ''.''" by (simp add: last_conv_nth)
      moreover from ne have "last (key[length key - 1 := CHR ''X'']) = CHR ''X''"
        by (simp add: last_conv_nth)
      ultimately show ?thesis using that [of "length key - 1"] ne wX by simp
    next
      case False
      with lst have d: "is_digit (last key)" by simp
      from dot obtain j where j: "j < length key" "key ! j = CHR ''.''"
        by (auto simp: in_set_conv_nth)
      with False ne have "j \<noteq> length key - 1" by (auto simp: last_conv_nth)
      with ne have "last (key[j := CHR ''X'']) = last key" by (simp add: last_conv_nth)
      with d j that [of j] show ?thesis by (simp add: digit_is_word)
    qed
    from replace_at_dot [OF sh j X(1,2) l] j X(3) show ?thesis by blast
  qed
  have c1: "replaceAtomicProps ''x >= 0X3'' [(''x >= 0.3'', ''p1'')] = ''p1''" by code_simp
  have c2: "extractAtomicPropositions ''x >= 0.3 or x >= 0z3'' = [''x >= 0.3'', ''x >= 0'']"
    by code_simp
  have c3: "replaceAtomicProps ''x >= 0.3 or x >= 0z3''
         (build_propMap (extractAtomicPropositions ''x >= 0.3 or x >= 0z3'')) = ''p2.3 or p1''"
    by code_simp
  from gen ex c1 c2 c3 show ?thesis by blast
qed

theorem C5_witness:
  "prop_shape ''x >= 0.3'' \<and> CHR ''.'' \<in> set ''x >= 0.3''
   \<and> (\<exists>j d. j < length ''x >= 0.3'' \<and> ''x >= 0.3'' ! j = CHR ''.'' \<and> d \<noteq> CHR ''.''
          \<and> replaceAtomicProps (''x >= 0.3''[j := d]) [(''x >= 0.3'', ''p1'')] = ''p1'')
   \<and> replaceAtomicProps (''x >= 0.3''[6 := CHR ''X'']) [(''x >= 0.3'', ''p1'')] = ''p1''"
proof -
  have "''x >= 0.3'' = ''x'' @ '' '' @ ''>='' @ '' '' @ ''0.3''" by simp
  moreover have "list_all is_word ''x''" "list_all is_space '' ''"
    "list_all (\<lambda>c. is_digit c \<or> c = CHR ''.'') ''0.3''"
    by (simp_all add: is_word_def is_digit_def is_space_def char_code_def)
  ultimately have sh: "prop_shape ''x >= 0.3''"
    unfolding prop_shape_def by (intro exI [of _ "''x''"] exI [of _ "'' ''"] exI [of _ "''>=''"]
      exI [of _ "''0.3''"]) simp
  have dot: "CHR ''.'' \<in> set ''x >= 0.3''" by simp
  have i: "(6::nat) < length ''x >= 0.3''" "''x >= 0.3'' ! 6 = CHR ''.''" by simp_all
  have c: "CHR ''X'' \<noteq> CHR 0x0A" "CHR ''X'' \<noteq> CHR 0x0D" by simp_all
  have l: "is_word (last (''x >= 0.3''[6 := CHR ''X'']))"
    by (simp add: is_word_def is_digit_def char_code_def)
  from C5_dot_is_wildcard [of "''x >= 0.3''" 6 "CHR ''X''" "''p1''"] sh dot i c l
  show ?thesis by blast
qed

section \<open>Properties of the File Writer\<close>

lemma str_find_None: "str_find pat s = None \<longleftrightarrow> \<not> sublist pat s"
  by (induction s) (auto simp: sublist_Cons_right)

text \<open>
  Claim C7. The File Writer appends \<open>.mitl\<close> to the name exactly when \<open>.mitl\<close> occurs
  nowhere in it as a substring; a name that has it anywhere, not only at the end, is
  written to as it is. So \<open>result\<close> becomes \<open>result.mitl\<close>, while \<open>result.mitl\<close> and
  \<open>data.mitl.bak\<close> stay as they are. The file that is opened and written has that name.
\<close>

theorem C7_extension_added_iff_absent:
  "(\<not> sublist ''.mitl'' name \<longrightarrow> mitl_filename name = name @ ''.mitl'')
   \<and> (sublist ''.mitl'' name \<longrightarrow> mitl_filename name = name)
   \<and> (can_open (mitl_filename name) \<longrightarrow>
        file_written (writeMITLToFile can_open formula name) = Some (mitl_filename name, formula))
   \<and> mitl_filename ''result'' = ''result.mitl''
   \<and> mitl_filename ''result.mitl'' = ''result.mitl''
   \<and> mitl_filename ''data.mitl.bak'' = ''data.mitl.bak''"
proof -
  have ex: "mitl_filename ''result'' = ''result.mitl''"
    "mitl_filename ''result.mitl'' = ''result.mitl''"
    "mitl_filename ''data.mitl.bak'' = ''data.mitl.bak''"
    by (simp_all add: mitl_filename_def)
  have gen: "mitl_filename name = (if sublist ''.mitl'' name then name else name @ ''.mitl'')"
    unfolding mitl_filename_def str_find_None by simp
  have wr: "can_open (mitl_filename name) \<longrightarrow>
        file_written (writeMITLToFile can_open formula name) = Some (mitl_filename name, formula)"
    by (simp add: writeMITLToFile_def Let_def)
  from ex gen wr show ?thesis by simp
qed

theorem C7_witness:
  "sublist ''.mitl'' ''data.mitl.bak'' \<and> mitl_filename ''data.mitl.bak'' = ''data.mitl.bak''
   \<and> \<not> sublist ''.mitl'' ''result'' \<and> mitl_filename ''result'' = ''result'' @ ''.mitl''
   \<and> file_written (writeMITLToFile (\<lambda>p. True) ''G'' ''result'') = Some (''result.mitl'', ''G'')"
proof -
  have a: "sublist ''.mitl'' ''data.mitl.bak''" by code_simp
  have b: "\<not> sublist ''.mitl'' ''result''" by code_simp
  from a b C7_extension_added_iff_absent [of "''data.mitl.bak''" "\<lambda>p. True" "''G''"]
    C7_extension_added_iff_absent [of "''result''" "\<lambda>p. True" "''G''"]
  show ?thesis by simp
qed

section \<open>Properties of the Temporal Partitioner\<close>

text \<open>
  Claim C3. On the formula \<open>G [0, 20] ((p2) U (p3))\<close> and the partition points
  \<open>5, 8, 10, 15, 20\<close> the Temporal Partitioner returns the five sub-formulas over
  \<open>(p2) U (p3)\<close> with the intervals \<open>[0, 5]\<close>, \<open>[6, 8]\<close>, \<open>[9, 10]\<close>, \<open>[11, 15]\<close> and
  \<open>[16, 20]\<close>, joined by the sign of conjunction: every interval after the first starts
  one above the partition point before it. (Each sub-formula is followed by a blank,
  the last one too.)
\<close>

theorem C3_five_conjuncts:
  "partitionTemporalOperators ''G [0, 20] ((p2) U (p3))'' [5, 8, 10, 15, 20] =
     Inr (''G [0, 5] ((p2) U (p3)) '' @ and_sign @ '' G [6, 8] ((p2) U (p3)) '' @ and_sign
          @ '' G [9, 10] ((p2) U (p3)) '' @ and_sign @ '' G [11, 15] ((p2) U (p3)) '' @ and_sign
          @ '' G [16, 20] ((p2) U (p3)) '')"
  by code_simp



lemma render_append: "render b (xs @ ys) = render b xs @ render b ys"
  by (simp add: render_def)






lemma partition_with_bounds:
  assumes "regex_search gPattern None f = Some (pre, cs, post)"
    and "stod_int (capture 5 cs) = Inr a" and "stod_int (capture 9 cs) = Inr b"
  shows "partitionTemporalOperators f pts =
           (case make_replacement a b pts of
              Inl e \<Rightarrow> Inl e
            | Inr rep \<Rightarrow> Inr (regex_replace gPattern rep f))"
  using assms by (simp add: partitionTemporalOperators_def)





lemma conforms_second_One:
  assumes "conforms (i # One a # is) prev cs r"
  shows "concat cs \<noteq> []"
proof -
  from assms obtain c1 cs1 where cs: "cs = c1 # cs1"
    and c1: "conforms (One a # is) (last_char prev c1) cs1 r"
    by (auto simp: conforms_Cons)
  from c1 obtain c2 cs2 where cs1: "cs1 = c2 # cs2" and "length c2 = 1"
    by (auto simp: conforms_Cons)
  then have "c2 \<noteq> []" by auto
  with cs cs1 show ?thesis by simp
qed

lemma conforms_gPattern_nonempty: "conforms gPattern prev cs r \<Longrightarrow> concat cs \<noteq> []"
  unfolding gPattern_def by (rule conforms_second_One)

text \<open>
  Claim C1 says that only the first occurrence of the shape \<open>G [a, b] ((p2) U (p3))\<close> is
  rewritten and every other occurrence is left as it is. It is not:
  \<open>std::regex_replace\<close> substitutes every match. In
  \<open>G [0, 8] ((p2) U (p3)) or G [0, 8] ((p2) U (p3))\<close> both occurrences are replaced by the
  conjunction over \<open>[0, 5]\<close> and \<open>[6, 8]\<close>; the result is not the one with the second
  occurrence unchanged.
\<close>

theorem C1_counterexample:
  "partitionTemporalOperators ''G [0, 8] ((p2) U (p3)) or G [0, 8] ((p2) U (p3))'' [5, 8, 10, 15, 20]
     = Inr (''G [0, 5] ((p2) U (p3)) '' @ and_sign @ '' G [6, 8] ((p2) U (p3)) '' @ '' or ''
            @ ''G [0, 5] ((p2) U (p3)) '' @ and_sign @ '' G [6, 8] ((p2) U (p3)) '')
   \<and> partitionTemporalOperators ''G [0, 8] ((p2) U (p3)) or G [0, 8] ((p2) U (p3))'' [5, 8, 10, 15, 20]
     \<noteq> Inr (''G [0, 5] ((p2) U (p3)) '' @ and_sign @ '' G [6, 8] ((p2) U (p3)) '' @ '' or ''
            @ ''G [0, 8] ((p2) U (p3))'')"
  by code_simp

text \<open>
  Claim C1, amended. When the formula contains the shape, with \<open>pre\<close> the text before its
  first occurrence \<open>concat cs\<close> (an occurrence before which no occurrence starts) and
  \<open>post\<close> the text after it, the Temporal Partitioner replaces that occurrence by the
  conjunction \<open>rep\<close> computed from its bounds and leaves \<open>pre\<close> as it is; \<open>post\<close> is left as
  it is when no further occurrence follows. A further occurrence is not left as it is:
  in \<open>G [0, 8] ((p2) U (p3)) or G [0, 8] ((p2) U (p3))\<close> both become the conjunction.
\<close>

theorem C1_first_occurrence_rewritten:
  "(regex_search gPattern None f = Some (pre, cs, post)
     \<and> stod_int (capture 5 cs) = Inr a \<and> stod_int (capture 9 cs) = Inr b
     \<and> make_replacement a b pts = Inr rep
   \<longrightarrow> f = pre @ concat cs @ post
       \<and> conforms gPattern (last_char None pre) cs post
       \<and> (\<forall>p t cs' q. pre = p @ t \<and> t \<noteq> [] \<and> t @ concat cs @ post = concat cs' @ q \<longrightarrow>
             \<not> conforms gPattern (last_char None p) cs' q)
       \<and> (\<exists>rest. partitionTemporalOperators f pts = Inr (pre @ rep @ rest)
             \<and> (regex_search gPattern (last_char None (pre @ concat cs)) post = None \<longrightarrow> rest = post)))
   \<and> partitionTemporalOperators ''G [0, 8] ((p2) U (p3)) or G [0, 8] ((p2) U (p3))'' [5, 8, 10, 15, 20]
       = Inr (''G [0, 5] ((p2) U (p3)) '' @ and_sign @ '' G [6, 8] ((p2) U (p3)) '' @ '' or ''
              @ ''G [0, 5] ((p2) U (p3)) '' @ and_sign @ '' G [6, 8] ((p2) U (p3)) '')"
proof -
  have gen: "regex_search gPattern None f = Some (pre, cs, post)
     \<and> stod_int (capture 5 cs) = Inr a \<and> stod_int (capture 9 cs) = Inr b
     \<and> make_replacement a b pts = Inr rep
   \<longrightarrow> f = pre @ concat cs @ post
       \<and> conforms gPattern (last_char None pre) cs post
       \<and> (\<forall>p t cs' q. pre = p @ t \<and> t \<noteq> [] \<and> t @ concat cs @ post = concat cs' @ q \<longrightarrow>
             \<not> conforms gPattern (last_char None p) cs' q)
       \<and> (\<exists>rest. partitionTemporalOperators f pts = Inr (pre @ rep @ rest)
             \<and> (regex_search gPattern (last_char None (pre @ concat cs)) post = None \<longrightarrow> rest = post))"
  proof (intro impI)
    assume h: "regex_search gPattern None f = Some (pre, cs, post)
       \<and> stod_int (capture 5 cs) = Inr a \<and> stod_int (capture 9 cs) = Inr b
       \<and> make_replacement a b pts = Inr rep"
    then have srch: "regex_search gPattern None f = Some (pre, cs, post)" by simp
    from regex_search_consumes [OF srch] have f: "f = pre @ concat cs @ post" .
    from regex_search_Some [OF srch]
    have mt: "matchI gPattern False (last_char None pre) (concat cs @ post) = Some (cs, post)"
      and none: "\<And>p t. pre = p @ t \<Longrightarrow> t \<noteq> [] \<Longrightarrow>
                   matchI gPattern False (last_char None p) (t @ concat cs @ post) = None"
      by blast+
    have gap: "\<forall>p t cs' q. pre = p @ t \<and> t \<noteq> [] \<and> t @ concat cs @ post = concat cs' @ q \<longrightarrow>
                 \<not> conforms gPattern (last_char None p) cs' q"
    proof (intro allI impI notI)
      fix p t cs' q
      assume a: "pre = p @ t \<and> t \<noteq> [] \<and> t @ concat cs @ post = concat cs' @ q"
        and c: "conforms gPattern (last_char None p) cs' q"
      from matchI_complete [OF c, of False]
      have "matchI gPattern False (last_char None p) (concat cs' @ q) \<noteq> None" by simp
      with none [of p t] a show False by simp
    qed
    from matchI_sound [OF mt] have conf: "conforms gPattern (last_char None pre) cs post" .
    from conforms_gPattern_nonempty [OF conf] have eq: "(concat cs = []) = False" by simp
    from h partition_with_bounds [OF srch, of a b pts]
    have p: "partitionTemporalOperators f pts = Inr (regex_replace gPattern rep f)" by simp
    obtain ms suf where rec: "all_matches gPattern False (last_char None (pre @ concat cs)) post = (ms, suf)"
      by (cases "all_matches gPattern False (last_char None (pre @ concat cs)) post")
    from srch have unf: "all_matches gPattern False None f =
          (case all_matches gPattern (concat cs = []) (last_char None (pre @ concat cs)) post of
             (ms, suf) \<Rightarrow> ((pre, cs) # ms, suf))"
      by (subst all_matches.simps) (simp del: concat_eq_Nil_conv)
    have am: "all_matches gPattern False None f = ((pre, cs) # ms, suf)"
      unfolding unf eq rec by simp
    define rest where "rest = concat (map (\<lambda>(pre, cs). pre @ rep) ms) @ suf"
    from am have rr: "regex_replace gPattern rep f = pre @ rep @ rest"
      by (simp add: regex_replace_def rest_def)
    have nomore: "rest = post"
      if "regex_search gPattern (last_char None (pre @ concat cs)) post = None"
    proof -
      from that have "all_matches gPattern False (last_char None (pre @ concat cs)) post = ([], post)"
        by (subst all_matches.simps) simp
      with rec show ?thesis by (simp add: rest_def)
    qed
    from p rr have "partitionTemporalOperators f pts = Inr (pre @ rep @ rest)" by simp
    with nomore have ex: "\<exists>rest. partitionTemporalOperators f pts = Inr (pre @ rep @ rest)
               \<and> (regex_search gPattern (last_char None (pre @ concat cs)) post = None \<longrightarrow> rest = post)"
      by (intro exI [of _ rest]) simp
    show "f = pre @ concat cs @ post
         \<and> conforms gPattern (last_char None pre) cs post
         \<and> (\<forall>p t cs' q. pre = p @ t \<and> t \<noteq> [] \<and> t @ concat cs @ post = concat cs' @ q \<longrightarrow>
               \<not> conforms gPattern (last_char None p) cs' q)
         \<and> (\<exists>rest. partitionTemporalOperators f pts = Inr (pre @ rep @ rest)
               \<and> (regex_search gPattern (last_char None (pre @ concat cs)) post = None \<longrightarrow> rest = post))"
      by (intro conjI; (rule f conf gap ex))
  qed
  have ex: "partitionTemporalOperators ''G [0, 8] ((p2) U (p3)) or G [0, 8] ((p2) U (p3))'' [5, 8, 10, 15, 20]
       = Inr (''G [0, 5] ((p2) U (p3)) '' @ and_sign @ '' G [6, 8] ((p2) U (p3)) '' @ '' or ''
              @ ''G [0, 5] ((p2) U (p3)) '' @ and_sign @ '' G [6, 8] ((p2) U (p3)) '')"
    by code_simp
  from gen ex show ?thesis by (rule conjI)
qed

theorem C1_witness:
  "regex_search gPattern None ''x G [0, 8] ((p2) U (p3)) y'' =
     Some (''x '', [[], ''G'', '' '', ''['', [], ''0'', [], '','', '' '', ''8'', [], '']'', '' '',
                ''('', ''('', ''p'', ''2'', '')'', '' '', ''U'', '' '', ''('', ''p'', ''3'', '')'', '')''], '' y'')
   \<and> stod_int ''0'' = Inr 0 \<and> stod_int ''8'' = Inr 8
   \<and> make_replacement 0 8 [5, 8, 10, 15, 20]
       = Inr (''G [0, 5] ((p2) U (p3)) '' @ and_sign @ '' G [6, 8] ((p2) U (p3)) '')
   \<and> partitionTemporalOperators ''x G [0, 8] ((p2) U (p3)) y'' [5, 8, 10, 15, 20]
       = Inr (''x '' @ ''G [0, 5] ((p2) U (p3)) '' @ and_sign @ '' G [6, 8] ((p2) U (p3)) '' @ '' y'')"
proof -
  define f where "f = ''x G [0, 8] ((p2) U (p3)) y''"
  define cs where "cs = [[], ''G'', '' '', ''['', [], ''0'', [], '','', '' '', ''8'', [], '']'', '' '',
                ''('', ''('', ''p'', ''2'', '')'', '' '', ''U'', '' '', ''('', ''p'', ''3'', '')'', '')'']"
  define R where "R = ''G [0, 5] ((p2) U (p3)) '' @ and_sign @ '' G [6, 8] ((p2) U (p3)) ''"
  have s: "regex_search gPattern None f = Some (''x '', cs, '' y'')"
    unfolding f_def cs_def by code_simp
  have c: "capture 5 cs = ''0''" "capture 9 cs = ''8''"
    unfolding cs_def by code_simp+
  have a: "stod_int ''0'' = Inr 0" by code_simp
  have b: "stod_int ''8'' = Inr 8" by code_simp
  have m: "make_replacement 0 8 [5, 8, 10, 15, 20] = Inr R"
    unfolding R_def by code_simp
  have n: "regex_search gPattern (last_char None (''x '' @ concat cs)) '' y'' = None"
    unfolding cs_def by code_simp
  from s a b m have hyp: "regex_search gPattern None f = Some (''x '', cs, '' y'')
     \<and> stod_int (capture 5 cs) = Inr 0 \<and> stod_int (capture 9 cs) = Inr 8
     \<and> make_replacement 0 8 [5, 8, 10, 15, 20] = Inr R"
    unfolding c by (intro conjI)
  from C1_first_occurrence_rewritten [of f "''x ''" cs "'' y''" 0 8 "[5, 8, 10, 15, 20]" R]
  have "regex_search gPattern None f = Some (''x '', cs, '' y'')
     \<and> stod_int (capture 5 cs) = Inr 0 \<and> stod_int (capture 9 cs) = Inr 8
     \<and> make_replacement 0 8 [5, 8, 10, 15, 20] = Inr R
   \<longrightarrow> f = ''x '' @ concat cs @ '' y''
       \<and> conforms gPattern (last_char None ''x '') cs '' y''
       \<and> (\<forall>p t cs' q. ''x '' = p @ t \<and> t \<noteq> [] \<and> t @ concat cs @ '' y'' = concat cs' @ q \<longrightarrow>
             \<not> conforms gPattern (last_char None p) cs' q)
       \<and> (\<exists>rest. partitionTemporalOperators f [5, 8, 10, 15, 20] = Inr (''x '' @ R @ rest)
             \<and> (regex_search gPattern (last_char None (''x '' @ concat cs)) '' y'' = None \<longrightarrow> rest = '' y''))"
    by (rule conjunct1)
  from this hyp
  have "f = ''x '' @ concat cs @ '' y''
       \<and> conforms gPattern (last_char None ''x '') cs '' y''
       \<and> (\<forall>p t cs' q. ''x '' = p @ t \<and> t \<noteq> [] \<and> t @ concat cs @ '' y'' = concat cs' @ q \<longrightarrow>
             \<not> conforms gPattern (last_char None p) cs' q)
       \<and> (\<exists>rest. partitionTemporalOperators f [5, 8, 10, 15, 20] = Inr (''x '' @ R @ rest)
             \<and> (regex_search gPattern (last_char None (''x '' @ concat cs)) '' y'' = None \<longrightarrow> rest = '' y''))"
    by (rule mp)
  then obtain rest where r1: "partitionTemporalOperators f [5, 8, 10, 15, 20] = Inr (''x '' @ R @ rest)"
    and r2: "regex_search gPattern (last_char None (''x '' @ concat cs)) '' y'' = None \<longrightarrow> rest = '' y''"
    by (elim conjE exE)
  from r2 n have "rest = '' y''" by (rule mp)
  with r1 have "partitionTemporalOperators f [5, 8, 10, 15, 20] = Inr (''x '' @ R @ '' y'')"
    by (simp only:)
  with s a b m show ?thesis unfolding f_def cs_def R_def by simp
qed

section \<open>Properties of the signal and its partition points\<close>

lemma partition_points_30:
  "map_option constructStablePartitions (synthesizeSignal (double_of_int 30)) =
     Some (Inr [5, 8, 10, 15, 20])"
  by code_simp

text \<open>
  Claim C4. For the horizon \<open>T = 30\<close> the Signal Synthesizer returns (the running sum of
  \<open>0.1\<close> passes \<open>30\<close> after 300 samples), and the Partition-Point Constructor on its signal
  gives exactly the points \<open>5, 8, 10, 15, 20\<close>, ascending and without duplicates. The
  times are the binary64 sums the program computes, not multiples of a tenth: the
  sample where a change is first seen lies up to a tenth after the step of the
  predicate, and \<open>std::round\<close> brings it back to the step.
\<close>

theorem C4_partition_points:
  "\<exists>signal. synthesizeSignal (double_of_int 30) = Some signal
     \<and> constructStablePartitions signal = Inr [5, 8, 10, 15, 20]"
  using partition_points_30 by auto

section \<open>Properties of the program as a whole\<close>

lemma main_partitioned:
  "ending (main can_open stlFormula filename) =
     (case partitionTemporalOperators
             (replaceAtomicProps stlFormula (build_propMap (extractAtomicPropositions stlFormula)))
             [5, 8, 10, 15, 20] of
        Inl e \<Rightarrow> (if e = Undefined_behaviour then Undefined else Terminate e)
      | Inr mitlFormula \<Rightarrow> Exit 0)"
proof -
  from partition_points_30 obtain signal where
    "synthesizeSignal (double_of_int 30) = Some signal"
    "constructStablePartitions signal = Inr [5, 8, 10, 15, 20]"
    by auto
  then show ?thesis
    by (simp add: main_def Let_def failed_def split: sum.splits)
qed

text \<open>
  Claim C8 says that every run exits with status 0. The program does so whenever it
  reaches the end of \<open>main\<close>, also when the file cannot be opened. But the groups of
  \<open>gPattern\<close> accept a text of dots only, and \<open>std::stod\<close> throws \<open>std::invalid_argument\<close>
  on it; nothing catches the exception, so the run on the formula
  \<open>G [., 5] ((p2) U (p3))\<close> ends in \<open>std::terminate\<close> instead of status 0, before any file
  is written.
\<close>

theorem C8_uncaught_exception:
  "ending (main can_open ''G [., 5] ((p2) U (p3))'' filename) = Terminate Invalid_argument"
proof -
  have "partitionTemporalOperators
          (replaceAtomicProps ''G [., 5] ((p2) U (p3))''
             (build_propMap (extractAtomicPropositions ''G [., 5] ((p2) U (p3))'')))
          [5, 8, 10, 15, 20] = Inl Invalid_argument"
    by code_simp
  then show ?thesis by (simp add: main_partitioned)
qed

section \<open>Properties of the proposition map\<close>

lemma map_of_map_assign: "map_of (map_assign k v m) = (map_of m)(k \<mapsto> v)"
  by (induction k v m rule: map_assign.induct) (auto simp: fun_eq_iff)

lemma assign_names_other:
  "k \<notin> set ps \<Longrightarrow> map_of (assign_names i ps m) k = map_of m k"
  by (induction ps arbitrary: i m) (auto simp: map_of_map_assign)

lemma assign_names_last:
  "n < length ps \<Longrightarrow> ps ! n = k \<Longrightarrow> \<forall>j. n < j \<and> j < length ps \<longrightarrow> ps ! j \<noteq> k \<Longrightarrow>
   map_of (assign_names i ps m) k = Some (''p'' @ to_string (int (i + n + 1)))"
proof (induction ps arbitrary: i m n)
  case Nil
  then show ?case by simp
next
  case (Cons p ps)
  show ?case
  proof (cases n)
    case 0
    with Cons.prems have k: "p = k" by simp
    have "k \<notin> set ps"
    proof
      assume "k \<in> set ps"
      then obtain j where "j < length ps" "ps ! j = k" by (auto simp: in_set_conv_nth)
      with Cons.prems(3) [rule_format, of "Suc j"] 0 show False by simp
    qed
    with k 0 show ?thesis by (simp add: assign_names_other map_of_map_assign)
  next
    case (Suc n')
    with Cons.prems have a: "n' < length ps" "ps ! n' = k" by simp_all
    have b: "\<forall>j. n' < j \<and> j < length ps \<longrightarrow> ps ! j \<noteq> k"
    proof (intro allI impI)
      fix j assume "n' < j \<and> j < length ps"
      with Cons.prems(3) [rule_format, of "Suc j"] Suc show "ps ! j \<noteq> k" by simp
    qed
    from Cons.IH [OF a b, of "i + 1"] Suc show ?thesis by simp
  qed
qed

text \<open>
  Claim C9. A proposition text that is extracted at several positions is bound to the
  name of its last position: if \<open>n\<close> (counted from 0) is the last position of \<open>k\<close> in the
  extracted list, the map binds \<open>k\<close> to \<open>p\<close> followed by \<open>n + 1\<close>, since the later
  assignment overwrites the earlier one. For the formula \<open>y < 2 and y < 2\<close> the map has
  the single entry \<open>y < 2 \<mapsto> p2\<close>: no text is bound to \<open>p1\<close>, and the names in use do not
  start at 1.
\<close>

theorem C9_last_occurrence_names:
  "(\<forall>n. n < length props \<and> props ! n = k \<and> (\<forall>j. n < j \<and> j < length props \<longrightarrow> props ! j \<noteq> k)
        \<longrightarrow> map_of (build_propMap props) k = Some (''p'' @ to_string (int n + 1)))
   \<and> extractAtomicPropositions ''y < 2 and y < 2'' = [''y < 2'', ''y < 2'']
   \<and> build_propMap (extractAtomicPropositions ''y < 2 and y < 2'') = [(''y < 2'', ''p2'')]"
proof -
  have ex: "extractAtomicPropositions ''y < 2 and y < 2'' = [''y < 2'', ''y < 2'']"
    "build_propMap (extractAtomicPropositions ''y < 2 and y < 2'') = [(''y < 2'', ''p2'')]"
    by code_simp+
  have "map_of (build_propMap props) k = Some (''p'' @ to_string (int n + 1))"
    if "n < length props" "props ! n = k" "\<forall>j. n < j \<and> j < length props \<longrightarrow> props ! j \<noteq> k" for n
    using assign_names_last [OF that, of 0 "[]"] by (simp add: build_propMap_def add.commute)
  with ex show ?thesis by blast
qed

theorem C9_witness:
  "(1::nat) < length [''y < 2'', ''y < 2''] \<and> [''y < 2'', ''y < 2''] ! 1 = ''y < 2''
   \<and> map_of (build_propMap [''y < 2'', ''y < 2'']) ''y < 2'' = Some ''p2''"
proof -
  have a: "(1::nat) < length [''y < 2'', ''y < 2'']" by simp
  have b: "[''y < 2'', ''y < 2''] ! 1 = ''y < 2''" by simp
  have c: "\<forall>j. (1::nat) < j \<and> j < length [''y < 2'', ''y < 2''] \<longrightarrow> [''y < 2'', ''y < 2''] ! j \<noteq> ''y < 2''"
    by simp
  have d: "''p'' @ to_string (int 1 + 1) = ''p2''" by code_simp
  from C9_last_occurrence_names [of "[''y < 2'', ''y < 2'']" "''y < 2''"] a b c d
  show ?thesis by (metis (no_types, lifting))
qed

lemma keys_map_assign: "fst ` set (map_assign k v m) = insert k (fst ` set m)"
  by (induction k v m rule: map_assign.induct) auto

lemma sorted_map_assign:
  "sorted_wrt (<) (map fst m) \<Longrightarrow> sorted_wrt (<) (map fst (map_assign k v m))"
proof (induction k v m rule: map_assign.induct)
  case (1 k v)
  then show ?case by simp
next
  case (2 k v k' v' m)
  show ?case
  proof (cases "k < k'")
    case True
    with 2(2) show ?thesis by auto
  next
    case False
    show ?thesis
    proof (cases "k = k'")
      case True
      with 2(2) show ?thesis by simp
    next
      case ne: False
      with False have lt: "k' < k" by simp
      from 2(2) have "sorted_wrt (<) (map fst m)" by simp
      from 2(1) [OF False ne this] have "sorted_wrt (<) (map fst (map_assign k v m))" .
      moreover have "\<forall>x \<in> fst ` set (map_assign k v m). k' < x"
        using 2(2) lt by (auto simp: keys_map_assign)
      ultimately show ?thesis using False ne by simp
    qed
  qed
qed

lemma sorted_assign_names:
  "sorted_wrt (<) (map fst m) \<Longrightarrow> sorted_wrt (<) (map fst (assign_names i ps m))"
  by (induction ps arbitrary: i m) (auto simp: sorted_map_assign)

lemma keys_assign_names: "fst ` set (assign_names i ps m) = set ps \<union> fst ` set m"
  by (induction ps arbitrary: i m) (auto simp: keys_map_assign)

text \<open>
  Claim C2 says that the names follow the iteration order of the map, so that \<open>p1\<close> goes
  to the lexicographically smallest text. It does not: for \<open>z > 1 and y < 2\<close> the
  smallest text \<open>y < 2\<close>, first in the map, is bound to \<open>p2\<close>, and \<open>p1\<close> is bound to
  \<open>z > 1\<close>, the text that appears first.
\<close>

theorem C2_counterexample:
  "extractAtomicPropositions ''z > 1 and y < 2'' = [''z > 1'', ''y < 2'']
   \<and> ''y < 2'' < ''z > 1''
   \<and> build_propMap (extractAtomicPropositions ''z > 1 and y < 2'')
       = [(''y < 2'', ''p2''), (''z > 1'', ''p1'')]"
  by code_simp

text \<open>
  Claim C2, amended. The map holds exactly the extracted texts, in ascending
  lexicographic order, but a name is chosen by the position of the text in the
  extraction: when the extracted texts are pairwise different, the text at position \<open>i\<close>
  (counted from 0) is bound to \<open>p\<close> followed by \<open>i + 1\<close>; in particular \<open>p1\<close> is bound to
  the text that appears first.
\<close>

theorem C2_names_follow_extraction_order:
  "sorted_wrt (<) (map fst (build_propMap (extractAtomicPropositions f)))
   \<and> fst ` set (build_propMap (extractAtomicPropositions f)) = set (extractAtomicPropositions f)
   \<and> (distinct (extractAtomicPropositions f) \<longrightarrow>
        (\<forall>i < length (extractAtomicPropositions f).
           map_of (build_propMap (extractAtomicPropositions f)) (extractAtomicPropositions f ! i)
             = Some (''p'' @ to_string (int i + 1))))"
proof -
  define props where "props = extractAtomicPropositions f"
  have s: "sorted_wrt (<) (map fst (build_propMap props))"
    unfolding build_propMap_def by (rule sorted_assign_names) simp
  have k: "fst ` set (build_propMap props) = set props"
    unfolding build_propMap_def by (simp add: keys_assign_names)
  have n: "map_of (build_propMap props) (props ! i) = Some (''p'' @ to_string (int i + 1))"
    if d: "distinct props" and i: "i < length props" for i
  proof -
    have "\<forall>j. i < j \<and> j < length props \<longrightarrow> props ! j \<noteq> props ! i"
      using d i by (auto simp: nth_eq_iff_index_eq)
    from assign_names_last [OF i refl this, of 0 "[]"] show ?thesis
      by (simp add: build_propMap_def add.commute)
  qed
  from s k n show ?thesis unfolding props_def by blast
qed

theorem C2_witness:
  "distinct (extractAtomicPropositions ''z > 1 and y < 2'')
   \<and> (0::nat) < length (extractAtomicPropositions ''z > 1 and y < 2'')
   \<and> map_of (build_propMap (extractAtomicPropositions ''z > 1 and y < 2'')) ''z > 1'' = Some ''p1''"
proof -
  have e: "extractAtomicPropositions ''z > 1 and y < 2'' = [''z > 1'', ''y < 2'']" by code_simp
  have d: "distinct (extractAtomicPropositions ''z > 1 and y < 2'')"
    "(0::nat) < length (extractAtomicPropositions ''z > 1 and y < 2'')"
    "extractAtomicPropositions ''z > 1 and y < 2'' ! 0 = ''z > 1''"
    unfolding e by simp_all
  have n: "''p'' @ to_string (int 0 + 1) = ''p1''" by code_simp
  from C2_names_follow_extraction_order [of "''z > 1 and y < 2''"] d n
  show ?thesis by (metis (no_types, lifting))
qed

end
